theory Spec2Isabelle
  imports Main "HOL-Library.Multiset"
begin

section \<open>Settling a ledger of cashouts: the model of settle\_balances.py\<close>

text \<open>
  The program reads a ledger of signed cashouts (one integer per player, cents), builds a
  payment graph between the players who are owed money and the players who owe it, asks a
  min-cost-flow library for a flow under random arc costs, turns the flow into a
  settlement, and keeps the settlement with the fewest payments over a number of trials
  that a process pool runs.

  Three things the program calls are libraries and not code of the program: the random
  generator (\<open>random.randint\<close>), the flow solvers (\<open>SimpleMinCostFlow\<close> of OR-tools,
  \<open>max_flow_min_cost\<close> of networkx) and the process pool (\<open>multiprocessing.Pool\<close>).
  The generator and the solvers are parameters of the model, and what a theorem needs of
  them is a hypothesis of that theorem. The pool is modelled by an explicit schedule.

  Python integers are unbounded and are modelled by \<open>int\<close>; the 64-bit limits of
  OR-tools are not modelled. \<open>math.ceil(num_trials / cpu_count)\<close> divides as floats; the
  model takes the exact ceiling, which is the same below \<open>2\<^sup>5\<^sup>3\<close>. Exceptions are values
  of the type \<open>error\<close>.
\<close>

subsection \<open>Errors and results\<close>

text \<open>The statuses of \<open>SimpleMinCostFlow.Solve\<close>.\<close>

datatype status =
  NOT_SOLVED | OPTIMAL | FEASIBLE | INFEASIBLE | UNBALANCED | BAD_RESULT | BAD_COST_RANGE

text \<open>
  The exceptions that reach the caller: the failed \<open>assert status == OPTIMAL\<close>, the
  \<open>ValueError\<close> of the pool for a chunk size below one, an exception raised inside
  networkx, the \<open>KeyError\<close> of a flow dictionary without the player asked for, and
  the division by a processor count of zero.
\<close>

datatype error =
  AssertionError status | ValueError | NetworkXError | KeyError | ZeroDivisionError

text \<open>
  A settlement is a \<open>defaultdict(list)\<close>: for each key, the player who requests money,
  the list of (payer, amount) pairs, in insertion order.
\<close>

type_synonym settlement = "(nat \<times> (nat \<times> int) list) list"

text \<open>\<open>settlements[k].append(v)\<close>: a missing key is created with an empty list first.\<close>

fun dd_append :: "nat \<Rightarrow> nat \<times> int \<Rightarrow> settlement \<Rightarrow> settlement" where
  "dd_append k v [] = [(k, [v])]"
| "dd_append k v ((k', vs) # rest) =
     (if k = k' then (k', vs @ [v]) # rest else (k', vs) # dd_append k v rest)"

text \<open>The payments of a settlement as (payee, payer, amount) triples.\<close>

definition entries :: "settlement \<Rightarrow> (nat \<times> nat \<times> int) list" where
  "entries s = concat (map (\<lambda>(k, al). map (\<lambda>(p, a). (k, p, a)) al) s)"

text \<open>\<open>sum(len(al) for _, al in settlement.items())\<close>\<close>

definition settlement_cost :: "settlement \<Rightarrow> int" where
  "settlement_cost s = sum_list (map (\<lambda>(k, al). int (length al)) s)"

text \<open>What a player receives and what a player pays in a settlement.\<close>

definition received :: "settlement \<Rightarrow> nat \<Rightarrow> int" where
  "received s c = sum_list (map (\<lambda>(k, p, a). a) (filter (\<lambda>(k, p, a). k = c) (entries s)))"

definition paid :: "settlement \<Rightarrow> nat \<Rightarrow> int" where
  "paid s d = sum_list (map (\<lambda>(k, p, a). a) (filter (\<lambda>(k, p, a). p = d) (entries s)))"

text \<open>
  A settlement zeroes a ledger when every player with a positive cashout receives exactly
  the cashout and every player with a negative cashout pays exactly its absolute value.
\<close>

definition zeroes :: "int list \<Rightarrow> settlement \<Rightarrow> bool" where
  "zeroes cashouts s =
     list_all (\<lambda>i. (cashouts ! i > 0 \<longrightarrow> received s i = cashouts ! i) \<and>
                   (cashouts ! i < 0 \<longrightarrow> paid s i = - (cashouts ! i)))
       [0..<length cashouts]"

subsection \<open>Edge weights\<close>

text \<open>
  \<open>random.randint a b\<close> reads and advances the generator of the process. The model
  passes the generator state \<open>'g\<close> explicitly; \<open>randint\<close> is a parameter.
\<close>

type_synonym 'g randint = "int \<Rightarrow> int \<Rightarrow> 'g \<Rightarrow> int \<times> 'g"

definition edge_weight :: "'g randint \<Rightarrow> 'g \<Rightarrow> int \<times> 'g" where
  "edge_weight randint g = randint (- 1000000000) 1000000000 g"

text \<open>The first \<open>n\<close> weights drawn from a generator state, and the state after them.\<close>

fun draws :: "'g randint \<Rightarrow> nat \<Rightarrow> 'g \<Rightarrow> int list \<times> 'g" where
  "draws randint 0 g = ([], g)"
| "draws randint (Suc n) g =
     (case edge_weight randint g of (w, g') \<Rightarrow>
        (case draws randint n g' of (ws, g'') \<Rightarrow> (w # ws, g'')))"

subsection \<open>The OR-tools backend\<close>

record arc =
  tail :: nat
  head :: nat
  capacity :: int
  unit_cost :: int

text \<open>The inner loop of the arc builder: one arc to each player with a negative cashout.\<close>

fun or_arcs_from :: "'g randint \<Rightarrow> nat \<Rightarrow> int \<Rightarrow> (nat \<times> int) list \<Rightarrow> 'g \<Rightarrow> arc list \<times> 'g" where
  "or_arcs_from randint player_from cashout1 [] g = ([], g)"
| "or_arcs_from randint player_from cashout1 ((player_to, cashout2) # rest) g =
     (if cashout2 \<ge> 0 then or_arcs_from randint player_from cashout1 rest g
      else
        (case edge_weight randint g of (w, g') \<Rightarrow>
          (case or_arcs_from randint player_from cashout1 rest g' of (arcs, g'') \<Rightarrow>
            (\<lparr>tail = player_from, head = player_to,
              capacity = min cashout1 (- cashout2), unit_cost = w\<rparr> # arcs, g''))))"

text \<open>The outer loop: players with a positive cashout are the tails.\<close>

fun or_arcs :: "'g randint \<Rightarrow> (nat \<times> int) list \<Rightarrow> (nat \<times> int) list \<Rightarrow> 'g \<Rightarrow> arc list \<times> 'g" where
  "or_arcs randint [] players g = ([], g)"
| "or_arcs randint ((player_from, cashout1) # rest) players g =
     (if cashout1 \<le> 0 then or_arcs randint rest players g
      else
        (case or_arcs_from randint player_from cashout1 players g of (arcs1, g') \<Rightarrow>
          (case or_arcs randint rest players g' of (arcs2, g'') \<Rightarrow> (arcs1 @ arcs2, g''))))"

text \<open>
  The solver is a parameter: from the arcs and the node supplies (the cashouts, set by
  \<open>SetNodeSupply\<close> for every player) to the status and the flow of each arc.
\<close>

type_synonym or_solver = "arc list \<Rightarrow> int list \<Rightarrow> status \<times> (nat \<Rightarrow> int)"

text \<open>The extraction loop over \<open>range(NumArcs())\<close>.\<close>

fun or_extract :: "arc list \<Rightarrow> (nat \<Rightarrow> int) \<Rightarrow> nat list \<Rightarrow> settlement \<Rightarrow> settlement" where
  "or_extract arcs flow [] settlements = settlements"
| "or_extract arcs flow (i # is) settlements =
     (if flow i \<le> 0 then or_extract arcs flow is settlements
      else or_extract arcs flow is
             (dd_append (tail (arcs ! i)) (head (arcs ! i), flow i) settlements))"

definition find_settlement_or ::
  "or_solver \<Rightarrow> 'g randint \<Rightarrow> int list \<Rightarrow> nat \<Rightarrow> 'g \<Rightarrow> (error + settlement) \<times> 'g" where
  "find_settlement_or solve randint cashouts trial g =
     (case or_arcs randint (enumerate 0 cashouts) (enumerate 0 cashouts) g of (arcs, g') \<Rightarrow>
        (case solve arcs cashouts of (status, flow) \<Rightarrow>
           if status \<noteq> OPTIMAL then (Inl (AssertionError status), g')
           else (Inr (or_extract arcs flow [0..<length arcs] []), g')))"

subsection \<open>The networkx backend\<close>

text \<open>
  An edge of the \<open>DiGraph\<close> with its attributes. The edges at the source and at the sink
  are added without a weight. No pair of nodes is added twice, so \<open>add_edge\<close> is the
  addition of an edge to the list.
\<close>

record nx_edge =
  e_from :: nat
  e_to :: nat
  e_capacity :: int
  e_weight :: "int option"

text \<open>The first loop: source to each payer, each payee to the sink.\<close>

fun nx_terminal_edges :: "nat \<Rightarrow> nat \<Rightarrow> (nat \<times> int) list \<Rightarrow> nx_edge list" where
  "nx_terminal_edges source sink [] = []"
| "nx_terminal_edges source sink ((player, cashout) # rest) =
     (if cashout < 0 then
        \<lparr>e_from = source, e_to = player, e_capacity = - cashout, e_weight = None\<rparr>
          # nx_terminal_edges source sink rest
      else if cashout > 0 then
        \<lparr>e_from = player, e_to = sink, e_capacity = cashout, e_weight = None\<rparr>
          # nx_terminal_edges source sink rest
      else nx_terminal_edges source sink rest)"

text \<open>The nested loops: players with a negative cashout are the edge origins here.\<close>

fun nx_edges_from ::
  "'g randint \<Rightarrow> nat \<Rightarrow> int \<Rightarrow> (nat \<times> int) list \<Rightarrow> 'g \<Rightarrow> nx_edge list \<times> 'g" where
  "nx_edges_from randint player_from cashout1 [] g = ([], g)"
| "nx_edges_from randint player_from cashout1 ((player_to, cashout2) # rest) g =
     (if cashout2 \<le> 0 then nx_edges_from randint player_from cashout1 rest g
      else
        (case edge_weight randint g of (w, g') \<Rightarrow>
          (case nx_edges_from randint player_from cashout1 rest g' of (es, g'') \<Rightarrow>
            (\<lparr>e_from = player_from, e_to = player_to,
              e_capacity = min (- cashout1) cashout2, e_weight = Some w\<rparr> # es, g''))))"

fun nx_edges ::
  "'g randint \<Rightarrow> (nat \<times> int) list \<Rightarrow> (nat \<times> int) list \<Rightarrow> 'g \<Rightarrow> nx_edge list \<times> 'g" where
  "nx_edges randint [] players g = ([], g)"
| "nx_edges randint ((player_from, cashout1) # rest) players g =
     (if cashout1 \<ge> 0 then nx_edges randint rest players g
      else
        (case nx_edges_from randint player_from cashout1 players g of (es1, g') \<Rightarrow>
          (case nx_edges randint rest players g' of (es2, g'') \<Rightarrow> (es1 @ es2, g''))))"

text \<open>
  The flow dictionary that \<open>max_flow_min_cost\<close> returns: for each node, the flow to
  each of its successors. The solver is a parameter: from the graph, the source and the
  sink to an exception or a flow dictionary.
\<close>

type_synonym flow_dict = "(nat \<times> (nat \<times> int) list) list"

type_synonym nx_solver = "nx_edge list \<Rightarrow> nat \<Rightarrow> nat \<Rightarrow> error + flow_dict"

text \<open>The inner extraction loop, over \<open>min_cost_flow[player_from].items()\<close>.\<close>

fun nx_payments :: "nat \<Rightarrow> (nat \<times> int) list \<Rightarrow> settlement \<Rightarrow> settlement" where
  "nx_payments player_from [] settlements = settlements"
| "nx_payments player_from ((player_to, payment) # rest) settlements =
     (if payment \<le> 0 then nx_payments player_from rest settlements
      else nx_payments player_from rest
             (dd_append player_to (player_from, payment) settlements))"

text \<open>The outer extraction loop; \<open>min_cost_flow[player_from]\<close> raises on a missing key.\<close>

fun nx_extract :: "flow_dict \<Rightarrow> (nat \<times> int) list \<Rightarrow> settlement \<Rightarrow> error + settlement" where
  "nx_extract fd [] settlements = Inr settlements"
| "nx_extract fd ((player_from, cashout) # rest) settlements =
     (if cashout \<ge> 0 then nx_extract fd rest settlements
      else
        (case map_of fd player_from of
           None \<Rightarrow> Inl KeyError
         | Some items \<Rightarrow> nx_extract fd rest (nx_payments player_from items settlements)))"

definition nx_graph :: "'g randint \<Rightarrow> int list \<Rightarrow> 'g \<Rightarrow> nx_edge list \<times> 'g" where
  "nx_graph randint cashouts g =
     (case nx_edges randint (enumerate 0 cashouts) (enumerate 0 cashouts) g of (es, g') \<Rightarrow>
        (nx_terminal_edges (length cashouts) (length cashouts + 1) (enumerate 0 cashouts) @ es,
         g'))"

definition find_settlement_nx ::
  "nx_solver \<Rightarrow> 'g randint \<Rightarrow> int list \<Rightarrow> nat \<Rightarrow> 'g \<Rightarrow> (error + settlement) \<times> 'g" where
  "find_settlement_nx max_flow_min_cost randint cashouts trial g =
     (case nx_graph randint cashouts g of (graph, g') \<Rightarrow>
        (case max_flow_min_cost graph (length cashouts) (length cashouts + 1) of
           Inl e \<Rightarrow> (Inl e, g')
         | Inr min_cost_flow \<Rightarrow> (nx_extract min_cost_flow (enumerate 0 cashouts) [], g')))"

subsection \<open>The process pool\<close>

text \<open>
  A worker process runs one task at a time: \<open>mapstar\<close> applies the function to each
  trial of the task in turn, on the generator of that process. The first exception ends
  the task, and the exception is the result of the whole task.
\<close>

fun mapstar ::
  "(nat \<Rightarrow> 'g \<Rightarrow> (error + 'a) \<times> 'g) \<Rightarrow> nat list \<Rightarrow> 'g \<Rightarrow> (error + 'a list) \<times> 'g" where
  "mapstar func [] g = (Inr [], g)"
| "mapstar func (i # is) g =
     (case func i g of
        (Inl e, g') \<Rightarrow> (Inl e, g')
      | (Inr r, g') \<Rightarrow>
          (case mapstar func is g' of
             (Inl e, g'') \<Rightarrow> (Inl e, g'')
           | (Inr rs, g'') \<Rightarrow> (Inr (r # rs), g'')))"

text \<open>The tasks: successive slices of \<open>chunksize\<close> trials.\<close>

function get_tasks :: "nat \<Rightarrow> 'a list \<Rightarrow> 'a list list" where
  "get_tasks chunksize xs =
     (if chunksize = 0 \<or> xs = [] then []
      else take chunksize xs # get_tasks chunksize (drop chunksize xs))"
  by pat_completeness auto

termination
  by (relation "measure (\<lambda>(chunksize, xs). length xs)") auto

declare get_tasks.simps [simp del]

text \<open>
  Which worker runs which task, and in which order the tasks complete, is decided by the
  operating system. A schedule lists the tasks in the order of their completion, each with
  the worker that ran it. \<open>gens\<close> is the generator state of each worker; a worker that
  runs a second task continues with the state the first one left.
\<close>

type_synonym schedule = "(nat \<times> nat) list"

fun pool_run ::
  "(nat \<Rightarrow> 'g \<Rightarrow> (error + 'a) \<times> 'g) \<Rightarrow> nat list list \<Rightarrow> (nat \<Rightarrow> 'g) \<Rightarrow> schedule
     \<Rightarrow> (error + 'a) list" where
  "pool_run func tasks gens [] = []"
| "pool_run func tasks gens ((b, w) # sched) =
     (if b < length tasks then
        (case mapstar func (tasks ! b) (gens w) of
           (Inl e, g') \<Rightarrow> Inl e # pool_run func tasks (gens(w := g')) sched
         | (Inr rs, g') \<Rightarrow> map Inr rs @ pool_run func tasks (gens(w := g')) sched)
      else pool_run func tasks gens sched)"

text \<open>
  Every task completes once, on one of the workers of the pool. The pool hands out the
  tasks in order, so it cannot produce every such schedule; a theorem about every valid
  schedule covers the ones it can produce, and the schedules of the example runs are among
  them (each worker takes its tasks in increasing order and no worker waits for another).
\<close>

definition valid_schedule :: "nat \<Rightarrow> nat \<Rightarrow> schedule \<Rightarrow> bool" where
  "valid_schedule ntasks workers sched \<longleftrightarrow>
     mset (map fst sched) = mset [0..<ntasks] \<and> list_all (\<lambda>(b, w). w < workers) sched"

text \<open>
  \<open>pool.imap_unordered(func, range(num_trials), chunksize)\<close>: the items the iterator
  yields, an exception standing where the iterator raises it. The pool refuses a chunk
  size below one.
\<close>

definition imap_unordered ::
  "(nat \<Rightarrow> 'g \<Rightarrow> (error + 'a) \<times> 'g) \<Rightarrow> int \<Rightarrow> int \<Rightarrow> (nat \<Rightarrow> 'g) \<Rightarrow> schedule
     \<Rightarrow> error + (error + 'a) list" where
  "imap_unordered func num_trials chunksize gens sched =
     (if chunksize < 1 then Inl ValueError
      else Inr (pool_run func (get_tasks (nat chunksize) [0..<nat num_trials]) gens sched))"

text \<open>
  \<open>math.ceil(num_trials / cpu_count)\<close>, the chunk size of the search, and the tasks
  of a search of \<open>num_trials\<close> trials on \<open>cpu_count\<close> processors.
\<close>

definition ceil_div :: "int \<Rightarrow> int \<Rightarrow> int" where
  "ceil_div a b = - ((- a) div b)"

definition pool_tasks :: "int \<Rightarrow> nat \<Rightarrow> nat list list" where
  "pool_tasks num_trials cpu_count =
     get_tasks (nat (ceil_div num_trials (int cpu_count))) [0..<nat num_trials]"

subsection \<open>The search for the best settlement\<close>

text \<open>The body of the \<open>for\<close> loop over the items of the iterator.\<close>

fun best_loop ::
  "(error + settlement) list \<Rightarrow> int \<times> settlement option \<Rightarrow> error + settlement option" where
  "best_loop [] (best_cost, best_settlement) = Inr best_settlement"
| "best_loop (Inl e # items) (best_cost, best_settlement) = Inl e"
| "best_loop (Inr settlement # items) (best_cost, best_settlement) =
     (let cost = settlement_cost settlement in
      if cost < best_cost then best_loop items (cost, Some settlement)
      else best_loop items (best_cost, best_settlement))"

definition find_best_settlement ::
  "(int list \<Rightarrow> nat \<Rightarrow> 'g \<Rightarrow> (error + settlement) \<times> 'g) \<Rightarrow> int list \<Rightarrow> int \<Rightarrow> nat
     \<Rightarrow> (nat \<Rightarrow> 'g) \<Rightarrow> schedule \<Rightarrow> error + settlement option" where
  "find_best_settlement settlement_finder cashouts num_trials cpu_count gens sched =
     (let best_cost = int (length cashouts) * int (length cashouts) + 1;
          best_settlement = None;
          find_settlement = settlement_finder cashouts
      in if cpu_count = 0 then Inl ZeroDivisionError
         else
           (case imap_unordered find_settlement num_trials
                   (ceil_div num_trials (int cpu_count)) gens sched of
              Inl e \<Rightarrow> Inl e
            | Inr items \<Rightarrow> best_loop items (best_cost, best_settlement)))"

subsection \<open>What the theorems ask of the libraries\<close>


text \<open>
  OR-tools: a node with a positive supply emits flow, an arc carries flow from its tail to
  its head. A flow is feasible when every arc stays within its capacity and every node
  emits exactly its supply.
\<close>

definition out_flow :: "arc list \<Rightarrow> (nat \<Rightarrow> int) \<Rightarrow> nat \<Rightarrow> int" where
  "out_flow arcs flow v = (\<Sum>i\<leftarrow>[0..<length arcs]. if tail (arcs ! i) = v then flow i else 0)"

definition in_flow :: "arc list \<Rightarrow> (nat \<Rightarrow> int) \<Rightarrow> nat \<Rightarrow> int" where
  "in_flow arcs flow v = (\<Sum>i\<leftarrow>[0..<length arcs]. if head (arcs ! i) = v then flow i else 0)"

definition or_feasible :: "arc list \<Rightarrow> int list \<Rightarrow> (nat \<Rightarrow> int) \<Rightarrow> bool" where
  "or_feasible arcs supplies flow \<longleftrightarrow>
     list_all (\<lambda>i. 0 \<le> flow i \<and> flow i \<le> capacity (arcs ! i)) [0..<length arcs] \<and>
     list_all (\<lambda>v. out_flow arcs flow v - in_flow arcs flow v = supplies ! v)
       [0..<length supplies]"

text \<open>The solver reports \<open>OPTIMAL\<close> only together with a feasible flow.\<close>

definition or_sound :: "or_solver \<Rightarrow> arc list \<Rightarrow> int list \<Rightarrow> bool" where
  "or_sound solve arcs supplies \<longleftrightarrow>
     (fst (solve arcs supplies) = OPTIMAL \<longrightarrow> or_feasible arcs supplies (snd (solve arcs supplies)))"

text \<open>
  networkx: a flow gives an integer to each pair of nodes; only the pairs that are edges
  count. It is a flow from \<open>s\<close> to \<open>t\<close> when every edge stays within its capacity and
  every other node of the graph passes on what it takes in; it is a maximum flow when no
  flow leaves \<open>s\<close> with more.
\<close>

definition nx_out :: "nx_edge list \<Rightarrow> (nat \<Rightarrow> nat \<Rightarrow> int) \<Rightarrow> nat \<Rightarrow> int" where
  "nx_out graph f u = (\<Sum>e\<leftarrow>graph. if e_from e = u then f (e_from e) (e_to e) else 0)"

definition nx_in :: "nx_edge list \<Rightarrow> (nat \<Rightarrow> nat \<Rightarrow> int) \<Rightarrow> nat \<Rightarrow> int" where
  "nx_in graph f v = (\<Sum>e\<leftarrow>graph. if e_to e = v then f (e_from e) (e_to e) else 0)"

definition nx_nodes :: "nx_edge list \<Rightarrow> nat list" where
  "nx_nodes graph = remdups (map e_from graph @ map e_to graph)"

definition nx_flow_ok :: "nx_edge list \<Rightarrow> nat \<Rightarrow> nat \<Rightarrow> (nat \<Rightarrow> nat \<Rightarrow> int) \<Rightarrow> bool" where
  "nx_flow_ok graph s t f \<longleftrightarrow>
     list_all (\<lambda>e. 0 \<le> f (e_from e) (e_to e) \<and> f (e_from e) (e_to e) \<le> e_capacity e) graph \<and>
     list_all (\<lambda>v. v = s \<or> v = t \<or> nx_in graph f v = nx_out graph f v) (nx_nodes graph)"

definition nx_value :: "nx_edge list \<Rightarrow> nat \<Rightarrow> (nat \<Rightarrow> nat \<Rightarrow> int) \<Rightarrow> int" where
  "nx_value graph s f = nx_out graph f s - nx_in graph f s"

definition nx_max_flow :: "nx_edge list \<Rightarrow> nat \<Rightarrow> nat \<Rightarrow> (nat \<Rightarrow> nat \<Rightarrow> int) \<Rightarrow> bool" where
  "nx_max_flow graph s t f \<longleftrightarrow>
     nx_flow_ok graph s t f \<and>
     (\<forall>f'. nx_flow_ok graph s t f' \<longrightarrow> nx_value graph s f' \<le> nx_value graph s f)"

text \<open>The flow that a flow dictionary stands for.\<close>

definition fd_flow :: "flow_dict \<Rightarrow> nat \<Rightarrow> nat \<Rightarrow> int" where
  "fd_flow fd u v =
     (case map_of fd u of
        None \<Rightarrow> 0
      | Some items \<Rightarrow> (case map_of items v of None \<Rightarrow> 0 | Some x \<Rightarrow> x))"

text \<open>
  The flow dictionary has an entry for every node of the graph, and the entry of a node
  has one item for each successor of the node.
\<close>

definition fd_shape :: "nx_edge list \<Rightarrow> flow_dict \<Rightarrow> bool" where
  "fd_shape graph fd \<longleftrightarrow>
     list_all (\<lambda>u. case map_of fd u of
                     None \<Rightarrow> False
                   | Some items \<Rightarrow>
                       distinct (map fst items) \<and>
                       set (map fst items) = set (map e_to (filter (\<lambda>e. e_from e = u) graph)))
       (nx_nodes graph)"

text \<open>When networkx returns a flow dictionary, it is one of a maximum flow.\<close>

definition nx_sound :: "nx_solver \<Rightarrow> nx_edge list \<Rightarrow> nat \<Rightarrow> nat \<Rightarrow> bool" where
  "nx_sound max_flow_min_cost graph s t \<longleftrightarrow>
     (case max_flow_min_cost graph s t of
        Inl e \<Rightarrow> True
      | Inr fd \<Rightarrow> fd_shape graph fd \<and> nx_max_flow graph s t (fd_flow fd))"

text \<open>The solver reports \<open>OPTIMAL\<close> whenever a feasible flow exists.\<close>

definition or_complete :: "or_solver \<Rightarrow> arc list \<Rightarrow> int list \<Rightarrow> bool" where
  "or_complete solve arcs supplies \<longleftrightarrow>
     ((\<exists>flow. or_feasible arcs supplies flow) \<longrightarrow> fst (solve arcs supplies) = OPTIMAL)"

text \<open>The solver returns a flow of least total cost among the feasible flows.\<close>

definition flow_cost :: "arc list \<Rightarrow> (nat \<Rightarrow> int) \<Rightarrow> int" where
  "flow_cost arcs flow = (\<Sum>i\<leftarrow>[0..<length arcs]. unit_cost (arcs ! i) * flow i)"

definition or_optimal :: "or_solver \<Rightarrow> arc list \<Rightarrow> int list \<Rightarrow> bool" where
  "or_optimal solve arcs supplies \<longleftrightarrow>
     (\<forall>flow. or_feasible arcs supplies flow \<longrightarrow>
        flow_cost arcs (snd (solve arcs supplies)) \<le> flow_cost arcs flow)"

text \<open>networkx returns a flow dictionary (it raises no exception).\<close>

definition nx_returns :: "nx_solver \<Rightarrow> nx_edge list \<Rightarrow> nat \<Rightarrow> nat \<Rightarrow> bool" where
  "nx_returns max_flow_min_cost graph s t \<longleftrightarrow> (\<exists>fd. max_flow_min_cost graph s t = Inr fd)"

text \<open>
  The nodes of a \<open>DiGraph\<close> are the ends of its edges: the program adds no node by
  itself. \<open>max_flow_min_cost\<close> first computes the value of a maximum flow, and that
  raises \<open>NetworkXError\<close> when the source or the sink is not a node of the graph. When
  both are nodes it returns a flow dictionary.
\<close>

definition nx_refuses :: "nx_solver \<Rightarrow> nx_edge list \<Rightarrow> nat \<Rightarrow> nat \<Rightarrow> bool" where
  "nx_refuses max_flow_min_cost graph s t \<longleftrightarrow>
     (s \<notin> set (nx_nodes graph) \<or> t \<notin> set (nx_nodes graph) \<longrightarrow>
        max_flow_min_cost graph s t = Inl NetworkXError)"

definition nx_answers :: "nx_solver \<Rightarrow> nx_edge list \<Rightarrow> nat \<Rightarrow> nat \<Rightarrow> bool" where
  "nx_answers max_flow_min_cost graph s t \<longleftrightarrow>
     (s \<in> set (nx_nodes graph) \<and> t \<in> set (nx_nodes graph) \<longrightarrow>
        nx_returns max_flow_min_cost graph s t)"

text \<open>
  The settlement contract: every payment goes from a player with a negative cashout to a
  player with a positive cashout, its amount is above zero, and the payments zero the
  ledger.
\<close>

definition valid_settlement :: "int list \<Rightarrow> settlement \<Rightarrow> bool" where
  "valid_settlement cashouts s \<longleftrightarrow>
     list_all (\<lambda>(k, p, a). k < length cashouts \<and> p < length cashouts \<and>
                  cashouts ! k > 0 \<and> cashouts ! p < 0 \<and> a > 0) (entries s) \<and>
     zeroes cashouts s"

text \<open>The players who are owed money and the players who owe it, in ledger order.\<close>

definition payees :: "int list \<Rightarrow> nat list" where
  "payees cashouts = filter (\<lambda>i. cashouts ! i > 0) [0..<length cashouts]"

definition payers :: "int list \<Rightarrow> nat list" where
  "payers cashouts = filter (\<lambda>i. cashouts ! i < 0) [0..<length cashouts]"

subsection \<open>Example runs\<close>

text \<open>
  A generator whose state is the list of raw numbers still to come; \<open>randint\<close> brings
  the next one into the range asked for.
\<close>

definition ex_randint :: "int list randint" where
  "ex_randint a b g = (case g of [] \<Rightarrow> (a, []) | x # xs \<Rightarrow> (max a (min b x), xs))"

text \<open>
  An arbitrary generator state, the same for every worker process: eight small numbers,
  chosen so that the first trial of a process and the second one meet different costs.
  They are not the draws of any seed.
\<close>

definition ex_gens :: "nat \<Rightarrow> int list" where
  "ex_gens w = [1, 0, 0, 1, 0, 1, 1, 0]"

text \<open>
  The generator state that \<open>random.seed(123)\<close> leaves: the first sixteen values that
  \<open>random.randint(-1_000_000_000, 1_000_000_000)\<close> returns after it (CPython 3, the
  Mersenne Twister of the standard library), enough for four trials of four arcs. A worker
  process that is spawned imports the module, and line 10 of the module seeds its
  generator: every such worker starts from this state.
\<close>

definition ex_seed_123 :: "int list" where
  "ex_seed_123 =
     [-887550029, -425167655, -812768041, 651321278,
      -125454973, -427580039, -768715515, 800672586,
      935309849, 878673991, -918065622, -185836694,
      151485118, 207570246, -286610876, -268141381]"

definition ex_gens_seeded :: "nat \<Rightarrow> int list" where
  "ex_gens_seeded w = ex_seed_123"

text \<open>
  A min-cost-flow solver for the networks that \<open>or_arcs\<close> builds from two payees and
  two payers (arcs 0 and 1 leave the first payee, arcs 2 and 3 the second). The flows that
  meet the supplies differ in the flow \<open>t\<close> of arc 0 only, and the total cost is linear
  in \<open>t\<close>: the solver takes the largest \<open>t\<close> when that is not dearer, the least
  otherwise. It reports an unbalanced ledger, and solves the network without arcs and
  the network of a single arc, where the flow is forced.
\<close>

definition ex_solve :: or_solver where
  "ex_solve arcs supplies =
     (if sum_list supplies \<noteq> 0 then (UNBALANCED, \<lambda>i. 0)
      else if length arcs = 0 then (OPTIMAL, \<lambda>i. 0)
      else if length arcs = 1 then
        (OPTIMAL, \<lambda>i. if i = 0 then supplies ! tail (arcs ! 0) else 0)
      else if length arcs = 4 then
        (let c1 = supplies ! tail (arcs ! 0);
             d1 = - (supplies ! head (arcs ! 0));
             d2 = - (supplies ! head (arcs ! 1));
             t = (if unit_cost (arcs ! 0) + unit_cost (arcs ! 3)
                       \<le> unit_cost (arcs ! 1) + unit_cost (arcs ! 2)
                  then min c1 d1 else max 0 (c1 - d2))
         in (OPTIMAL, \<lambda>i. if i < 4 then [t, c1 - t, d1 - t, d2 - c1 + t] ! i else 0))
      else (NOT_SOLVED, \<lambda>i. 0))"

text \<open>Two workers whose generators are in different states.\<close>

definition ex_gens2 :: "nat \<Rightarrow> int list" where
  "ex_gens2 w = (if w = 0 then [0, 1, 1, 0] else [1, 0, 0, 1])"

text \<open>
  A maximum-flow solver for the graphs that \<open>nx_graph\<close> builds from one payer and one
  payee: the three edges form a single path from the source to the sink, and the maximum
  flow sends the least of the three capacities along it. On every other graph it raises
  \<open>NetworkXError\<close>, as networkx does on a graph without the source or the sink
  (\<open>ex_max_flow_refuses\<close>).
\<close>

definition ex_max_flow_min_cost :: nx_solver where
  "ex_max_flow_min_cost graph s t =
     (case graph of
        [e1, e2, e3] \<Rightarrow>
          if e_from e1 = s \<and> e_to e2 = t \<and> e_from e3 = e_to e1 \<and> e_to e3 = e_from e2 then
            (let v = min (e_capacity e1) (min (e_capacity e2) (e_capacity e3))
             in Inr [(s, [(e_to e1, v)]), (e_to e1, [(e_from e2, v)]),
                     (e_from e2, [(t, v)]), (t, [])])
          else Inl NetworkXError
      | _ \<Rightarrow> Inl NetworkXError)"

section \<open>Properties\<close>

subsection \<open>Settlements\<close>

lemma entries_Nil [simp]: "entries [] = []"
  by (simp add: entries_def)

lemma entries_dd_append:
  "mset (entries (dd_append k (p, a) s)) = add_mset (k, p, a) (mset (entries s))"
  by (induction s) (auto simp: entries_def)

lemma set_entries_dd_append:
  "set (entries (dd_append k (p, a) s)) = insert (k, p, a) (set (entries s))"
  using entries_dd_append [of k p a s] by (metis set_mset_add_mset_insert set_mset_mset)

lemma received_dd_append:
  "received (dd_append k (p, a) s) c = received s c + (if k = c then a else 0)"
  by (induction s) (auto simp: received_def entries_def)

lemma paid_dd_append:
  "paid (dd_append k (p, a) s) d = paid s d + (if p = d then a else 0)"
  by (induction s) (auto simp: paid_def entries_def)

lemma settlement_cost_dd_append:
  "settlement_cost (dd_append k v s) = settlement_cost s + 1"
  by (induction s) (auto simp: settlement_cost_def)

lemma settlement_cost_entries: "settlement_cost s = int (length (entries s))"
  by (induction s) (auto simp: settlement_cost_def entries_def)

subsection \<open>The extraction loops\<close>

lemma set_entries_or_extract:
  "set (entries (or_extract arcs flow is s)) =
     set (entries s) \<union> {(tail (arcs ! i), head (arcs ! i), flow i) | i. i \<in> set is \<and> flow i > 0}"
  by (induction "is" arbitrary: s) (auto simp: set_entries_dd_append split: if_splits)

lemma received_or_extract:
  "received (or_extract arcs flow is s) c =
     received s c + (\<Sum>i\<leftarrow>is. if flow i > 0 \<and> tail (arcs ! i) = c then flow i else 0)"
  by (induction "is" arbitrary: s) (auto simp: received_dd_append)

lemma paid_or_extract:
  "paid (or_extract arcs flow is s) d =
     paid s d + (\<Sum>i\<leftarrow>is. if flow i > 0 \<and> head (arcs ! i) = d then flow i else 0)"
  by (induction "is" arbitrary: s) (auto simp: paid_dd_append)

lemma settlement_cost_or_extract:
  "settlement_cost (or_extract arcs flow is s) =
     settlement_cost s + int (length (filter (\<lambda>i. flow i > 0) is))"
  by (induction "is" arbitrary: s) (auto simp: settlement_cost_dd_append)

lemma set_entries_nx_payments:
  "set (entries (nx_payments pf items s)) =
     set (entries s) \<union> {(pt, pf, a) | pt a. (pt, a) \<in> set items \<and> a > 0}"
  by (induction items arbitrary: s) (auto simp: set_entries_dd_append split: if_splits)

lemma received_nx_payments:
  "received (nx_payments pf items s) c =
     received s c + (\<Sum>(pt, a)\<leftarrow>items. if a > 0 \<and> pt = c then a else 0)"
  by (induction items arbitrary: s) (auto simp: received_dd_append)

lemma paid_nx_payments:
  "paid (nx_payments pf items s) d =
     paid s d + (if pf = d then (\<Sum>(pt, a)\<leftarrow>items. if a > 0 then a else 0) else 0)"
  by (induction items arbitrary: s) (auto simp: paid_dd_append)

lemma settlement_cost_nx_payments:
  "settlement_cost (nx_payments pf items s) =
     settlement_cost s + int (length (filter (\<lambda>(pt, a). a > 0) items))"
  by (induction items arbitrary: s) (auto simp: settlement_cost_dd_append)

lemma nx_extract_positive:
  "nx_extract fd ps s0 = Inr s \<Longrightarrow> \<forall>(k, p, a) \<in> set (entries s0). a > 0
     \<Longrightarrow> (k, p, a) \<in> set (entries s) \<Longrightarrow> a > 0"
proof (induction ps arbitrary: s0)
  case Nil
  then show ?case by auto
next
  case (Cons x ps)
  obtain pf c where x: "x = (pf, c)" by (cases x)
  show ?case
  proof (cases "c \<ge> 0")
    case True
    with Cons x show ?thesis by simp
  next
    case False
    with Cons.prems x obtain items where it: "map_of fd pf = Some items"
      and ex: "nx_extract fd ps (nx_payments pf items s0) = Inr s"
      by (auto split: option.splits)
    have "\<forall>(k, p, a) \<in> set (entries (nx_payments pf items s0)). a > 0"
      using Cons.prems(2) by (auto simp: set_entries_nx_payments)
    from Cons.IH [OF ex this Cons.prems(3)] show ?thesis .
  qed
qed

lemma or_positive:
  "fst (find_settlement_or solve randint cashouts trial g) = Inr s
     \<Longrightarrow> (k, p, a) \<in> set (entries s) \<Longrightarrow> a > 0"
  by (auto simp: find_settlement_or_def set_entries_or_extract split: prod.splits if_splits)

lemma nx_positive:
  "fst (find_settlement_nx mfmc randint cashouts trial g) = Inr s
     \<Longrightarrow> (k, p, a) \<in> set (entries s) \<Longrightarrow> a > 0"
  by (auto simp: find_settlement_nx_def split: prod.splits sum.splits dest!: nx_extract_positive)

subsection \<open>The graph builders\<close>


lemma draws_length: "draws rnd n g = (ws, g') \<Longrightarrow> length ws = n"
  by (induction n arbitrary: g ws g') (auto split: prod.splits)


lemma or_arcs_from_topology:
  "or_arcs_from rnd pf c1 ps g = (arcs, g') \<Longrightarrow>
   map (\<lambda>a. (tail a, head a, capacity a)) arcs =
     map (\<lambda>(pt, c2). (pf, pt, min c1 (- c2))) (filter (\<lambda>(pt, c2). c2 < 0) ps)"
  by (induction ps arbitrary: g arcs g') (auto split: prod.splits if_splits)


lemma or_arcs_topology:
  "or_arcs rnd rows ps g = (arcs, g') \<Longrightarrow>
   map (\<lambda>a. (tail a, head a, capacity a)) arcs =
     concat (map (\<lambda>(pf, c1). map (\<lambda>(pt, c2). (pf, pt, min c1 (- c2)))
                                 (filter (\<lambda>(pt, c2). c2 < 0) ps))
                 (filter (\<lambda>(pf, c1). c1 > 0) rows))"
proof (induction rows arbitrary: g arcs g')
  case Nil
  then show ?case by simp
next
  case (Cons r rows)
  obtain pf c1 where r: "r = (pf, c1)" by (cases r)
  show ?case
  proof (cases "c1 \<le> 0")
    case True
    with r Cons show ?thesis by simp
  next
    case False
    obtain a1 g1 where a1: "or_arcs_from rnd pf c1 ps g = (a1, g1)"
      by (cases "or_arcs_from rnd pf c1 ps g")
    obtain a2 g2 where a2: "or_arcs rnd rows ps g1 = (a2, g2)"
      by (cases "or_arcs rnd rows ps g1")
    from or_arcs_from_topology [OF a1]
    have t1: "map (\<lambda>a. (tail a, head a, capacity a)) a1 =
        map (\<lambda>(pt, c2). (pf, pt, min c1 (- c2))) (filter (\<lambda>(pt, c2). c2 < 0) ps)"
      by simp
    from Cons.IH [OF a2]
    have t2: "map (\<lambda>a. (tail a, head a, capacity a)) a2 =
       concat (map (\<lambda>(pf, c1). map (\<lambda>(pt, c2). (pf, pt, min c1 (- c2)))
                                 (filter (\<lambda>(pt, c2). c2 < 0) ps))
                 (filter (\<lambda>(pf, c1). c1 > 0) rows))"
      by simp
    from False r a1 a2 Cons.prems have eq: "arcs = a1 @ a2" by auto
    from False r t1 t2 eq show ?thesis by simp
  qed
qed


lemma nx_edges_from_topology:
  "nx_edges_from rnd pf c1 ps g = (es, g') \<Longrightarrow>
   map (\<lambda>e. (e_from e, e_to e, e_capacity e)) es =
     map (\<lambda>(pt, c2). (pf, pt, min (- c1) c2)) (filter (\<lambda>(pt, c2). c2 > 0) ps)"
  by (induction ps arbitrary: g es g') (auto split: prod.splits if_splits)


lemma nx_edges_topology:
  "nx_edges rnd rows ps g = (es, g') \<Longrightarrow>
   map (\<lambda>e. (e_from e, e_to e, e_capacity e)) es =
     concat (map (\<lambda>(pf, c1). map (\<lambda>(pt, c2). (pf, pt, min (- c1) c2))
                                 (filter (\<lambda>(pt, c2). c2 > 0) ps))
                 (filter (\<lambda>(pf, c1). c1 < 0) rows))"
proof (induction rows arbitrary: g es g')
  case Nil
  then show ?case by simp
next
  case (Cons r rows)
  obtain pf c1 where r: "r = (pf, c1)" by (cases r)
  show ?case
  proof (cases "c1 \<ge> 0")
    case True
    with r Cons show ?thesis by simp
  next
    case False
    obtain a1 g1 where a1: "nx_edges_from rnd pf c1 ps g = (a1, g1)"
      by (cases "nx_edges_from rnd pf c1 ps g")
    obtain a2 g2 where a2: "nx_edges rnd rows ps g1 = (a2, g2)"
      by (cases "nx_edges rnd rows ps g1")
    from nx_edges_from_topology [OF a1]
    have t1: "map (\<lambda>e. (e_from e, e_to e, e_capacity e)) a1 =
        map (\<lambda>(pt, c2). (pf, pt, min (- c1) c2)) (filter (\<lambda>(pt, c2). c2 > 0) ps)" .
    from Cons.IH [OF a2]
    have t2: "map (\<lambda>e. (e_from e, e_to e, e_capacity e)) a2 =
       concat (map (\<lambda>(pf, c1). map (\<lambda>(pt, c2). (pf, pt, min (- c1) c2))
                                 (filter (\<lambda>(pt, c2). c2 > 0) ps))
                 (filter (\<lambda>(pf, c1). c1 < 0) rows))" .
    from False r a1 a2 Cons.prems have eq: "es = a1 @ a2" by auto
    from False r t1 t2 eq show ?thesis by simp
  qed
qed


lemma or_arcs_members:
  assumes "or_arcs rnd (enumerate 0 cs) (enumerate 0 cs) g = (arcs, g')" and "a \<in> set arcs"
  shows "tail a < length cs \<and> head a < length cs \<and> cs ! tail a > 0 \<and> cs ! head a < 0 \<and>
         capacity a = min (cs ! tail a) (- (cs ! head a))"
proof -
  from assms(2) have "(tail a, head a, capacity a) \<in> set (map (\<lambda>a. (tail a, head a, capacity a)) arcs)"
    by force
  then show ?thesis
    unfolding or_arcs_topology [OF assms(1)]
    by (auto simp: in_set_enumerate_eq)
qed

lemma nx_edges_members:
  assumes "nx_edges rnd (enumerate 0 cs) (enumerate 0 cs) g = (es, g')" and "e \<in> set es"
  shows "e_from e < length cs \<and> e_to e < length cs \<and> cs ! e_from e < 0 \<and> cs ! e_to e > 0 \<and>
         e_capacity e = min (- (cs ! e_from e)) (cs ! e_to e)"
proof -
  from assms(2) have "(e_from e, e_to e, e_capacity e) \<in> set (map (\<lambda>e. (e_from e, e_to e, e_capacity e)) es)"
    by force
  then show ?thesis
    unfolding nx_edges_topology [OF assms(1)]
    by (auto simp: in_set_enumerate_eq)
qed

lemma nx_terminal_edges_concat:
  "nx_terminal_edges s t ps =
     concat (map (\<lambda>(p, c).
        if c < 0 then [\<lparr>e_from = s, e_to = p, e_capacity = - c, e_weight = None\<rparr>]
        else if c > 0 then [\<lparr>e_from = p, e_to = t, e_capacity = c, e_weight = None\<rparr>]
        else []) ps)"
  by (induction ps) auto

lemma nx_terminal_members:
  assumes "e \<in> set (nx_terminal_edges s t (enumerate 0 cs))"
  shows "(e_from e = s \<and> e_to e < length cs \<and> cs ! e_to e < 0 \<and> e_capacity e = - (cs ! e_to e)) \<or>
         (e_to e = t \<and> e_from e < length cs \<and> cs ! e_from e > 0 \<and> e_capacity e = cs ! e_from e)"
proof -
  from assms obtain p c where pc: "(p, c) \<in> set (enumerate 0 cs)"
    and e: "e \<in> set (if c < 0 then [\<lparr>e_from = s, e_to = p, e_capacity = - c, e_weight = None\<rparr>]
        else if c > 0 then [\<lparr>e_from = p, e_to = t, e_capacity = c, e_weight = None\<rparr>]
        else [])"
    unfolding nx_terminal_edges_concat by auto
  from pc have "p < length cs" "cs ! p = c" by (auto simp: in_set_enumerate_eq)
  with e show ?thesis by (auto split: if_splits)
qed

subsection \<open>One trial of the OR-tools backend\<close>

lemma sum_list_map_eqI:
  "(\<And>x. x \<in> set xs \<Longrightarrow> f x = g x) \<Longrightarrow> sum_list (map f xs) = sum_list (map g xs)"
  by (induction xs) auto

lemma sum_list_map_zeroI:
  "(\<And>x. x \<in> set xs \<Longrightarrow> f x = (0::int)) \<Longrightarrow> sum_list (map f xs) = 0"
  by (induction xs) auto

lemma or_trial_zeroes:
  assumes arcs: "or_arcs rnd (enumerate 0 cs) (enumerate 0 cs) g = (arcs, g')"
    and feas: "or_feasible arcs cs flow"
  shows "zeroes cs (or_extract arcs flow [0..<length arcs] [])"
proof -
  let ?s = "or_extract arcs flow [0..<length arcs] []"
  from feas have nonneg: "\<And>k. k < length arcs \<Longrightarrow> 0 \<le> flow k"
    and cons: "\<And>v. v < length cs \<Longrightarrow> out_flow arcs flow v - in_flow arcs flow v = cs ! v"
    by (auto simp: or_feasible_def list_all_iff)
  have mem: "\<And>k. k < length arcs \<Longrightarrow> cs ! tail (arcs ! k) > 0 \<and> cs ! head (arcs ! k) < 0"
    using or_arcs_members [OF arcs] by force
  have rec: "received ?s i = out_flow arcs flow i" for i
    unfolding received_or_extract out_flow_def
    by (simp add: received_def) (rule sum_list_map_eqI, use nonneg in force)
  have pay: "paid ?s i = in_flow arcs flow i" for i
    unfolding paid_or_extract in_flow_def
    by (simp add: paid_def) (rule sum_list_map_eqI, use nonneg in force)
  have "received ?s i = cs ! i" if i: "i < length cs" "cs ! i > 0" for i
  proof -
    have "in_flow arcs flow i = 0"
      unfolding in_flow_def by (rule sum_list_map_zeroI) (use mem i in force)
    with cons [OF i(1)] rec [of i] show ?thesis by simp
  qed
  moreover have "paid ?s i = - (cs ! i)" if i: "i < length cs" "cs ! i < 0" for i
  proof -
    have "out_flow arcs flow i = 0"
      unfolding out_flow_def by (rule sum_list_map_zeroI) (use mem i in force)
    with cons [OF i(1)] pay [of i] show ?thesis by simp
  qed
  ultimately show ?thesis by (simp add: zeroes_def list_all_iff)
qed

lemma or_finder_zeroes:
  assumes "fst (find_settlement_or solve rnd cs trial g) = Inr s"
    and "or_sound solve (fst (or_arcs rnd (enumerate 0 cs) (enumerate 0 cs) g)) cs"
  shows "zeroes cs s"
proof -
  obtain arcs g' where arcs: "or_arcs rnd (enumerate 0 cs) (enumerate 0 cs) g = (arcs, g')"
    by (cases "or_arcs rnd (enumerate 0 cs) (enumerate 0 cs) g")
  obtain st flow where sol: "solve arcs cs = (st, flow)" by (cases "solve arcs cs")
  from assms(1) arcs sol have st: "st = OPTIMAL" and s: "s = or_extract arcs flow [0..<length arcs] []"
    by (auto simp: find_settlement_or_def split: if_splits)
  from assms(2) arcs sol st have "or_feasible arcs cs flow" by (simp add: or_sound_def)
  from or_trial_zeroes [OF arcs this] s show ?thesis by simp
qed

lemma or_finder_members:
  assumes "fst (find_settlement_or solve rnd cs trial g) = Inr s"
    and "(k, p, a) \<in> set (entries s)"
  shows "k < length cs \<and> p < length cs \<and> cs ! k > 0 \<and> cs ! p < 0"
proof -
  obtain arcs g' where arcs: "or_arcs rnd (enumerate 0 cs) (enumerate 0 cs) g = (arcs, g')"
    by (cases "or_arcs rnd (enumerate 0 cs) (enumerate 0 cs) g")
  obtain st flow where sol: "solve arcs cs = (st, flow)" by (cases "solve arcs cs")
  from assms(1) arcs sol have s: "s = or_extract arcs flow [0..<length arcs] []"
    by (auto simp: find_settlement_or_def split: if_splits)
  from assms(2) obtain i where i: "i < length arcs" "k = tail (arcs ! i)" "p = head (arcs ! i)"
    unfolding s set_entries_or_extract by auto
  from or_arcs_members [OF arcs, of "arcs ! i"] i show ?thesis by simp
qed

lemma or_finder_cost:
  assumes "fst (find_settlement_or solve rnd cs trial g) = Inr s"
  shows "settlement_cost s \<le> int (length cs) * int (length cs)"
proof -
  obtain arcs g' where arcs: "or_arcs rnd (enumerate 0 cs) (enumerate 0 cs) g = (arcs, g')"
    by (cases "or_arcs rnd (enumerate 0 cs) (enumerate 0 cs) g")
  obtain st flow where sol: "solve arcs cs = (st, flow)" by (cases "solve arcs cs")
  from assms(1) arcs sol have s: "s = or_extract arcs flow [0..<length arcs] []"
    by (auto simp: find_settlement_or_def split: if_splits)
  have "length (filter (\<lambda>i. flow i > 0) [0..<length arcs]) \<le> length arcs"
    using length_filter_le [of "\<lambda>i. flow i > 0" "[0..<length arcs]"] by simp
  then have c: "settlement_cost s \<le> int (length arcs)"
    unfolding s settlement_cost_or_extract by (simp add: settlement_cost_def)
  have "length arcs = length (map (\<lambda>a. (tail a, head a, capacity a)) arcs)" by simp
  also have "\<dots> = length (filter (\<lambda>(pf, c1). c1 > 0) (enumerate 0 cs)) *
                  length (filter (\<lambda>(pt, c2). c2 < 0) (enumerate 0 cs))"
    unfolding or_arcs_topology [OF arcs]
    by (simp add: length_concat comp_def case_prod_beta sum_list_triv)
  also have "\<dots> \<le> length cs * length cs"
    by (rule mult_le_mono)
      (metis length_enumerate length_filter_le)+
  finally have "int (length arcs) \<le> int (length cs) * int (length cs)"
    by (metis of_nat_le_iff of_nat_mult)
  with c show ?thesis by linarith
qed

subsection \<open>The payment edges in terms of payers and payees\<close>

lemma enumerate_conv: "enumerate 0 xs = map (\<lambda>i. (i, xs ! i)) [0..<length xs]"
  by (rule nth_equalityI) (simp_all add: nth_enumerate_eq)

lemma filter_enumerate_pos:
  "filter (\<lambda>(i, x). x > 0) (enumerate 0 cs) = map (\<lambda>i. (i, cs ! i)) (payees cs)"
  by (simp add: enumerate_conv payees_def filter_map comp_def)

lemma filter_enumerate_neg:
  "filter (\<lambda>(i, x). x < 0) (enumerate 0 cs) = map (\<lambda>i. (i, cs ! i)) (payers cs)"
  by (simp add: enumerate_conv payers_def filter_map comp_def)

lemma payees_iff: "c \<in> set (payees cs) \<longleftrightarrow> c < length cs \<and> cs ! c > 0"
  by (auto simp: payees_def)

lemma payers_iff: "d \<in> set (payers cs) \<longleftrightarrow> d < length cs \<and> cs ! d < 0"
  by (auto simp: payers_def)

lemma distinct_payees [simp]: "distinct (payees cs)"
  by (simp add: payees_def)

lemma distinct_payers [simp]: "distinct (payers cs)"
  by (simp add: payers_def)

lemma or_arcs_pairs:
  assumes "or_arcs rnd (enumerate 0 cs) (enumerate 0 cs) g = (arcs, g')"
  shows "map (\<lambda>a. (tail a, head a, capacity a)) arcs =
     concat (map (\<lambda>c. map (\<lambda>d. (c, d, min (cs ! c) (- (cs ! d)))) (payers cs)) (payees cs))"
  unfolding or_arcs_topology [OF assms] filter_enumerate_pos filter_enumerate_neg
  by (simp add: comp_def)

lemma nx_edges_pairs:
  assumes "nx_edges rnd (enumerate 0 cs) (enumerate 0 cs) g = (es, g')"
  shows "map (\<lambda>e. (e_from e, e_to e, e_capacity e)) es =
     concat (map (\<lambda>d. map (\<lambda>c. (d, c, min (- (cs ! d)) (cs ! c))) (payees cs)) (payers cs))"
  unfolding nx_edges_topology [OF assms] filter_enumerate_pos filter_enumerate_neg
  by (simp add: comp_def)

lemma sum_list_concat_map:
  fixes h :: "'b \<Rightarrow> int"
  shows "sum_list (map h (concat (map k xs))) = (\<Sum>x\<leftarrow>xs. sum_list (map h (k x)))"
  by (induction xs) auto

lemma nx_terminal_sum:
  fixes h :: "nat \<Rightarrow> nat \<Rightarrow> int"
  shows "(\<Sum>e\<leftarrow>nx_terminal_edges s t ps. h (e_from e) (e_to e)) =
     (\<Sum>(p, c)\<leftarrow>filter (\<lambda>(p, c). c < 0) ps. h s p) + (\<Sum>(p, c)\<leftarrow>filter (\<lambda>(p, c). c > 0) ps. h p t)"
  by (induction ps) auto

lemma nx_edges_sum:
  fixes h :: "nat \<Rightarrow> nat \<Rightarrow> int"
  assumes "nx_edges rnd (enumerate 0 cs) (enumerate 0 cs) g = (es, g')"
  shows "(\<Sum>e\<leftarrow>es. h (e_from e) (e_to e)) = (\<Sum>d\<leftarrow>payers cs. \<Sum>c\<leftarrow>payees cs. h d c)"
proof -
  have "(\<Sum>e\<leftarrow>es. h (e_from e) (e_to e)) =
      (\<Sum>(a, b, c)\<leftarrow>map (\<lambda>e. (e_from e, e_to e, e_capacity e)) es. h a b)"
    by (simp add: comp_def)
  also have "\<dots> = (\<Sum>d\<leftarrow>payers cs. \<Sum>c\<leftarrow>payees cs. h d c)"
    unfolding nx_edges_pairs [OF assms]
    by (simp add: sum_list_concat_map comp_def)
  finally show ?thesis .
qed

lemma nx_graph_sum:
  fixes h :: "nat \<Rightarrow> nat \<Rightarrow> int"
  assumes "nx_graph rnd cs g = (graph, g')"
  shows "(\<Sum>e\<leftarrow>graph. h (e_from e) (e_to e)) =
     (\<Sum>d\<leftarrow>payers cs. h (length cs) d) + (\<Sum>c\<leftarrow>payees cs. h c (length cs + 1)) +
     (\<Sum>d\<leftarrow>payers cs. \<Sum>c\<leftarrow>payees cs. h d c)"
proof -
  obtain es where es: "nx_edges rnd (enumerate 0 cs) (enumerate 0 cs) g = (es, g')"
    and graph: "graph = nx_terminal_edges (length cs) (length cs + 1) (enumerate 0 cs) @ es"
    using assms by (auto simp: nx_graph_def split: prod.splits)
  show ?thesis
    unfolding graph
    by (simp add: nx_terminal_sum nx_edges_sum [OF es] filter_enumerate_pos
        filter_enumerate_neg comp_def)
qed

subsection \<open>Sums over lists\<close>

lemma sum_list_single:
  fixes X :: "'a \<Rightarrow> int"
  shows "distinct xs \<Longrightarrow> (\<Sum>x\<leftarrow>xs. if x = k then X x else 0) = (if k \<in> set xs then X k else 0)"
  by (induction xs) auto

lemma sum_list_swap:
  fixes h :: "'a \<Rightarrow> 'b \<Rightarrow> int"
  shows "(\<Sum>x\<leftarrow>xs. \<Sum>y\<leftarrow>ys. h x y) = (\<Sum>y\<leftarrow>ys. \<Sum>x\<leftarrow>xs. h x y)"
  by (induction xs) (simp_all add: sum_list_addf)

lemma sum_list_le_eq:
  fixes f g :: "'a \<Rightarrow> int"
  assumes "\<And>x. x \<in> set xs \<Longrightarrow> f x \<le> g x" and "sum_list (map f xs) = sum_list (map g xs)"
    and "x \<in> set xs"
  shows "f x = g x"
  using assms
proof (induction xs)
  case Nil
  then show ?case by simp
next
  case (Cons y ys)
  have le: "sum_list (map f ys) \<le> sum_list (map g ys)"
    by (rule sum_list_mono) (simp add: Cons.prems(1))
  have y: "f y \<le> g y" by (simp add: Cons.prems(1))
  from Cons.prems(2) have "f y + sum_list (map f ys) = g y + sum_list (map g ys)" by simp
  with le y have eq: "f y = g y" "sum_list (map f ys) = sum_list (map g ys)" by linarith+
  from Cons.prems(3) have "x = y \<or> x \<in> set ys" by simp
  then show ?case
  proof
    assume "x = y" with eq show ?thesis by simp
  next
    assume "x \<in> set ys"
    with Cons.IH [OF _ eq(2)] Cons.prems(1) show ?thesis by simp
  qed
qed

lemma sum_list_payees_payers:
  "sum_list cs = (\<Sum>c\<leftarrow>payees cs. cs ! c) + (\<Sum>d\<leftarrow>payers cs. cs ! d)"
proof -
  have "sum_list cs = (\<Sum>i\<leftarrow>[0..<length cs]. cs ! i)"
    by (simp add: map_nth)
  also have "\<dots> = (\<Sum>i\<leftarrow>[0..<length cs]. (if cs ! i > 0 then cs ! i else 0) +
                       (if cs ! i < 0 then cs ! i else 0))"
    by (rule sum_list_map_eqI) auto
  also have "\<dots> = (\<Sum>c\<leftarrow>payees cs. cs ! c) + (\<Sum>d\<leftarrow>payers cs. cs ! d)"
    by (simp add: sum_list_addf payees_def payers_def sum_list_map_filter')
  finally show ?thesis .
qed

lemma nx_terminal_triples:
  "map (\<lambda>e. (e_from e, e_to e, e_capacity e)) (nx_terminal_edges s t ps) =
     concat (map (\<lambda>(p, c). if c < 0 then [(s, p, - c)] else if c > 0 then [(p, t, c)] else [])
                 ps)"
  by (induction ps) auto

lemma nx_graph_triples:
  assumes "nx_graph rnd cs g = (graph, g')"
  shows "set (map (\<lambda>e. (e_from e, e_to e, e_capacity e)) graph) =
     {(length cs, d, - (cs ! d)) | d. d \<in> set (payers cs)} \<union>
     {(c, length cs + 1, cs ! c) | c. c \<in> set (payees cs)} \<union>
     {(d, c, min (- (cs ! d)) (cs ! c)) | d c. d \<in> set (payers cs) \<and> c \<in> set (payees cs)}"
proof -
  obtain es where es: "nx_edges rnd (enumerate 0 cs) (enumerate 0 cs) g = (es, g')"
    and graph: "graph = nx_terminal_edges (length cs) (length cs + 1) (enumerate 0 cs) @ es"
    using assms by (auto simp: nx_graph_def split: prod.splits)
  have t: "set (map (\<lambda>e. (e_from e, e_to e, e_capacity e))
             (nx_terminal_edges (length cs) (length cs + 1) (enumerate 0 cs))) =
     {(length cs, d, - (cs ! d)) | d. d \<in> set (payers cs)} \<union>
     {(c, length cs + 1, cs ! c) | c. c \<in> set (payees cs)}"
    unfolding nx_terminal_triples enumerate_conv
    by (auto simp: payers_iff payees_iff split: if_splits)
  have e: "set (map (\<lambda>e. (e_from e, e_to e, e_capacity e)) es) =
     {(d, c, min (- (cs ! d)) (cs ! c)) | d c. d \<in> set (payers cs) \<and> c \<in> set (payees cs)}"
    unfolding nx_edges_pairs [OF es] by auto
  show ?thesis unfolding graph using t e by (simp only: map_append set_append)
qed

subsection \<open>Flows on the networkx graph\<close>

lemma nx_out_source:
  assumes "nx_graph rnd cs g = (graph, g')"
  shows "nx_out graph f (length cs) = (\<Sum>d\<leftarrow>payers cs. f (length cs) d)"
proof -
  have a: "(\<Sum>c\<leftarrow>payees cs. if c = length cs then f c (length cs + 1) else 0) = 0"
    by (rule sum_list_map_zeroI) (auto simp: payees_iff)
  have b: "(\<Sum>d\<leftarrow>payers cs. \<Sum>c\<leftarrow>payees cs. if d = length cs then f d c else 0) = 0"
    by (rule sum_list_map_zeroI) (auto simp: payers_iff)
  show ?thesis
    unfolding nx_out_def
    using nx_graph_sum [OF assms, of "\<lambda>a b. if a = length cs then f a b else 0"] a b
    by simp
qed

lemma nx_in_source:
  assumes "nx_graph rnd cs g = (graph, g')"
  shows "nx_in graph f (length cs) = 0"
proof -
  have a: "(\<Sum>d\<leftarrow>payers cs. if d = length cs then f (length cs) d else 0) = 0"
    by (rule sum_list_map_zeroI) (auto simp: payers_iff)
  have b: "(\<Sum>d\<leftarrow>payers cs. \<Sum>c\<leftarrow>payees cs. if c = length cs then f d c else 0) = 0"
    by (rule sum_list_map_zeroI, rule sum_list_map_zeroI) (auto simp: payees_iff)
  show ?thesis
    unfolding nx_in_def
    using nx_graph_sum [OF assms, of "\<lambda>a b. if b = length cs then f a b else 0"] a b
    by simp
qed

lemma nx_out_payer:
  assumes "nx_graph rnd cs g = (graph, g')" and d: "d \<in> set (payers cs)"
  shows "nx_out graph f d = (\<Sum>c\<leftarrow>payees cs. f d c)"
proof -
  from d have dn: "d \<noteq> length cs" and neg: "cs ! d < 0" by (auto simp: payers_iff)
  have a: "(\<Sum>c\<leftarrow>payees cs. if c = d then f c (length cs + 1) else 0) = 0"
    by (rule sum_list_map_zeroI) (use neg in \<open>auto simp: payees_iff\<close>)
  have "(\<Sum>d'\<leftarrow>payers cs. \<Sum>c\<leftarrow>payees cs. if d' = d then f d' c else 0) =
        (\<Sum>d'\<leftarrow>payers cs. if d' = d then (\<Sum>c\<leftarrow>payees cs. f d' c) else 0)"
    by (rule sum_list_map_eqI) simp
  also have "\<dots> = (\<Sum>c\<leftarrow>payees cs. f d c)"
    using d by (simp add: sum_list_single)
  finally have b: "(\<Sum>d'\<leftarrow>payers cs. \<Sum>c\<leftarrow>payees cs. if d' = d then f d' c else 0) =
        (\<Sum>c\<leftarrow>payees cs. f d c)" .
  show ?thesis
    unfolding nx_out_def
    using nx_graph_sum [OF assms(1), of "\<lambda>a b. if a = d then f a b else 0"] a b dn
    by simp
qed

lemma nx_in_payer:
  assumes "nx_graph rnd cs g = (graph, g')" and d: "d \<in> set (payers cs)"
  shows "nx_in graph f d = f (length cs) d"
proof -
  from d have dn: "d \<noteq> length cs + 1" and neg: "cs ! d < 0" by (auto simp: payers_iff)
  have a: "(\<Sum>d'\<leftarrow>payers cs. if d' = d then f (length cs) d' else 0) = f (length cs) d"
    using d by (simp add: sum_list_single)
  have b: "(\<Sum>d'\<leftarrow>payers cs. \<Sum>c\<leftarrow>payees cs. if c = d then f d' c else 0) = 0"
    by (rule sum_list_map_zeroI, rule sum_list_map_zeroI) (use neg in \<open>auto simp: payees_iff\<close>)
  show ?thesis
    unfolding nx_in_def
    using nx_graph_sum [OF assms(1), of "\<lambda>a b. if b = d then f a b else 0"] a b dn
    by simp
qed

lemma nx_out_payee:
  assumes "nx_graph rnd cs g = (graph, g')" and c: "c \<in> set (payees cs)"
  shows "nx_out graph f c = f c (length cs + 1)"
proof -
  from c have cn: "c \<noteq> length cs" and pos: "cs ! c > 0" by (auto simp: payees_iff)
  have a: "(\<Sum>c'\<leftarrow>payees cs. if c' = c then f c' (length cs + 1) else 0) = f c (length cs + 1)"
    using c by (simp add: sum_list_single)
  have ne: "d \<noteq> c" if "d \<in> set (payers cs)" for d
    using that pos by (auto simp: payers_iff)
  have b: "(\<Sum>d\<leftarrow>payers cs. \<Sum>c'\<leftarrow>payees cs. if d = c then f d c' else 0) = 0"
    by (rule sum_list_map_zeroI) (simp add: ne)
  show ?thesis
    unfolding nx_out_def
    using nx_graph_sum [OF assms(1), of "\<lambda>a b. if a = c then f a b else 0"] a b cn
    by simp
qed

lemma nx_in_payee:
  assumes "nx_graph rnd cs g = (graph, g')" and c: "c \<in> set (payees cs)"
  shows "nx_in graph f c = (\<Sum>d\<leftarrow>payers cs. f d c)"
proof -
  from c have cn: "c \<noteq> length cs + 1" and pos: "cs ! c > 0" by (auto simp: payees_iff)
  have a: "(\<Sum>d\<leftarrow>payers cs. if d = c then f (length cs) d else 0) = 0"
    by (rule sum_list_map_zeroI) (use pos in \<open>auto simp: payers_iff\<close>)
  have "(\<Sum>d\<leftarrow>payers cs. \<Sum>c'\<leftarrow>payees cs. if c' = c then f d c' else 0) =
        (\<Sum>d\<leftarrow>payers cs. f d c)"
    by (rule sum_list_map_eqI) (use c in \<open>simp add: sum_list_single\<close>)
  then show ?thesis
    unfolding nx_in_def
    using nx_graph_sum [OF assms(1), of "\<lambda>a b. if b = c then f a b else 0"] a cn
    by simp
qed

lemma nx_flow_ok_iff:
  assumes G: "nx_graph rnd cs g = (graph, g')"
  shows "nx_flow_ok graph (length cs) (length cs + 1) f \<longleftrightarrow>
     (\<forall>d\<in>set (payers cs). 0 \<le> f (length cs) d \<and> f (length cs) d \<le> - (cs ! d)) \<and>
     (\<forall>c\<in>set (payees cs). 0 \<le> f c (length cs + 1) \<and> f c (length cs + 1) \<le> cs ! c) \<and>
     (\<forall>d\<in>set (payers cs). \<forall>c\<in>set (payees cs).
         0 \<le> f d c \<and> f d c \<le> min (- (cs ! d)) (cs ! c)) \<and>
     (\<forall>d\<in>set (payers cs). f (length cs) d = (\<Sum>c\<leftarrow>payees cs. f d c)) \<and>
     (\<forall>c\<in>set (payees cs). (\<Sum>d\<leftarrow>payers cs. f d c) = f c (length cs + 1))"
proof -
  let ?T = "set (map (\<lambda>e. (e_from e, e_to e, e_capacity e)) graph)"
  have caps: "list_all (\<lambda>e. 0 \<le> f (e_from e) (e_to e) \<and> f (e_from e) (e_to e) \<le> e_capacity e) graph
      \<longleftrightarrow> (\<forall>(a, b, c)\<in>?T. 0 \<le> f a b \<and> f a b \<le> c)"
    by (auto simp: list_all_iff)
  have nodes: "set (nx_nodes graph) = (\<lambda>(a, b, c). a) ` ?T \<union> (\<lambda>(a, b, c). b) ` ?T"
    by (auto simp: nx_nodes_def image_iff)
  have inner: "{v \<in> set (nx_nodes graph). v \<noteq> length cs \<and> v \<noteq> length cs + 1} =
      set (payers cs) \<union> set (payees cs)"
  proof (intro equalityI subsetI)
    fix v assume "v \<in> {v \<in> set (nx_nodes graph). v \<noteq> length cs \<and> v \<noteq> length cs + 1}"
    then show "v \<in> set (payers cs) \<union> set (payees cs)"
      unfolding nodes nx_graph_triples [OF G] by auto
  next
    fix v assume "v \<in> set (payers cs) \<union> set (payees cs)"
    then show "v \<in> {v \<in> set (nx_nodes graph). v \<noteq> length cs \<and> v \<noteq> length cs + 1}"
    proof
      assume v: "v \<in> set (payers cs)"
      then have "(length cs, v, - (cs ! v)) \<in> ?T"
        unfolding nx_graph_triples [OF G] by blast
      then have "v \<in> (\<lambda>(a, b, c). b) ` ?T" by force
      with v show ?thesis unfolding nodes by (auto simp: payers_iff)
    next
      assume v: "v \<in> set (payees cs)"
      then have "(v, length cs + 1, cs ! v) \<in> ?T"
        unfolding nx_graph_triples [OF G] by blast
      then have "v \<in> (\<lambda>(a, b, c). a) ` ?T" by force
      with v show ?thesis unfolding nodes by (auto simp: payees_iff)
    qed
  qed
  have cons: "list_all (\<lambda>v. v = length cs \<or> v = length cs + 1 \<or> nx_in graph f v = nx_out graph f v)
        (nx_nodes graph) \<longleftrightarrow>
      (\<forall>v\<in>set (payers cs) \<union> set (payees cs). nx_in graph f v = nx_out graph f v)"
    unfolding inner [symmetric] by (auto simp: list_all_iff)
  let ?A = "\<forall>d\<in>set (payers cs). 0 \<le> f (length cs) d \<and> f (length cs) d \<le> - (cs ! d)"
  let ?B = "\<forall>c\<in>set (payees cs). 0 \<le> f c (length cs + 1) \<and> f c (length cs + 1) \<le> cs ! c"
  let ?C = "\<forall>d\<in>set (payers cs). \<forall>c\<in>set (payees cs).
         0 \<le> f d c \<and> f d c \<le> min (- (cs ! d)) (cs ! c)"
  have caps2: "(\<forall>(a, b, c)\<in>?T. 0 \<le> f a b \<and> f a b \<le> c) \<longleftrightarrow> ?A \<and> ?B \<and> ?C"
  proof
    assume H: "\<forall>(a, b, c)\<in>?T. 0 \<le> f a b \<and> f a b \<le> c"
    have "?A"
    proof
      fix d assume "d \<in> set (payers cs)"
      then have "(length cs, d, - (cs ! d)) \<in> ?T" unfolding nx_graph_triples [OF G] by blast
      with H show "0 \<le> f (length cs) d \<and> f (length cs) d \<le> - (cs ! d)" by blast
    qed
    moreover have "?B"
    proof
      fix c assume "c \<in> set (payees cs)"
      then have "(c, length cs + 1, cs ! c) \<in> ?T" unfolding nx_graph_triples [OF G] by blast
      with H show "0 \<le> f c (length cs + 1) \<and> f c (length cs + 1) \<le> cs ! c" by blast
    qed
    moreover have "?C"
    proof (intro ballI)
      fix d c assume "d \<in> set (payers cs)" "c \<in> set (payees cs)"
      then have "(d, c, min (- (cs ! d)) (cs ! c)) \<in> ?T"
        unfolding nx_graph_triples [OF G] by blast
      with H show "0 \<le> f d c \<and> f d c \<le> min (- (cs ! d)) (cs ! c)" by blast
    qed
    ultimately show "?A \<and> ?B \<and> ?C" by blast
  next
    assume "?A \<and> ?B \<and> ?C"
    then show "\<forall>(a, b, c)\<in>?T. 0 \<le> f a b \<and> f a b \<le> c"
      unfolding nx_graph_triples [OF G] by auto
  qed
  have cons2: "(\<forall>v\<in>set (payers cs) \<union> set (payees cs). nx_in graph f v = nx_out graph f v) \<longleftrightarrow>
      (\<forall>d\<in>set (payers cs). f (length cs) d = (\<Sum>c\<leftarrow>payees cs. f d c)) \<and>
      (\<forall>c\<in>set (payees cs). (\<Sum>d\<leftarrow>payers cs. f d c) = f c (length cs + 1))"
    by (simp add: ball_Un nx_in_payer [OF G] nx_out_payer [OF G] nx_in_payee [OF G]
        nx_out_payee [OF G])
  show ?thesis
    unfolding nx_flow_ok_def caps cons caps2 cons2 by blast
qed

lemma nx_value_eq:
  assumes "nx_graph rnd cs g = (graph, g')"
  shows "nx_value graph (length cs) f = (\<Sum>d\<leftarrow>payers cs. f (length cs) d)"
  by (simp add: nx_value_def nx_out_source [OF assms] nx_in_source [OF assms])

subsection \<open>A balanced ledger has a flow that settles it\<close>

lemma sum_list_member_le:
  fixes h :: "'a \<Rightarrow> int"
  assumes "\<And>y. y \<in> set ys \<Longrightarrow> 0 \<le> h y" and "y \<in> set ys"
  shows "h y \<le> sum_list (map h ys)"
  using assms
proof (induction ys)
  case Nil
  then show ?case by simp
next
  case (Cons z zs)
  have nn: "0 \<le> sum_list (map h zs)"
    by (rule sum_list_nonneg) (use Cons.prems(1) in auto)
  have z: "0 \<le> h z" by (simp add: Cons.prems(1))
  from Cons.prems(2) have "y = z \<or> y \<in> set zs" by simp
  then show ?case
  proof
    assume "y = z" with nn show ?thesis by simp
  next
    assume "y \<in> set zs"
    with Cons.IH Cons.prems(1) have "h y \<le> sum_list (map h zs)" by simp
    with z show ?thesis by simp
  qed
qed

lemma split_amount:
  fixes b :: "'c \<Rightarrow> int"
  assumes "distinct cols" and "\<forall>c\<in>set cols. 0 \<le> b c" and "0 \<le> m"
    and "m \<le> (\<Sum>c\<leftarrow>cols. b c)"
  shows "\<exists>y. (\<forall>c\<in>set cols. 0 \<le> y c \<and> y c \<le> b c) \<and> (\<Sum>c\<leftarrow>cols. y c) = m"
  using assms
proof (induction cols arbitrary: m)
  case Nil
  then show ?case by simp
next
  case (Cons c cols)
  define y0 where "y0 = min m (b c)"
  have bc: "0 \<le> b c" using Cons.prems(2) by simp
  have nn: "0 \<le> (\<Sum>c\<leftarrow>cols. b c)"
    by (rule sum_list_nonneg) (use Cons.prems(2) in auto)
  have y0: "0 \<le> y0" "y0 \<le> b c" "y0 \<le> m"
    using Cons.prems(3) bc by (auto simp: y0_def)
  have rest: "0 \<le> m - y0" "m - y0 \<le> (\<Sum>c\<leftarrow>cols. b c)"
    using Cons.prems(3,4) nn by (auto simp: y0_def)
  from Cons.IH [OF _ _ rest] Cons.prems(1,2)
  obtain y where y: "\<forall>c\<in>set cols. 0 \<le> y c \<and> y c \<le> b c" "(\<Sum>c\<leftarrow>cols. y c) = m - y0"
    by auto
  have same: "(\<Sum>c'\<leftarrow>cols. (y(c := y0)) c') = (\<Sum>c'\<leftarrow>cols. y c')"
    by (rule sum_list_map_eqI) (use Cons.prems(1) in auto)
  have "(\<forall>c'\<in>set (c # cols). 0 \<le> (y(c := y0)) c' \<and> (y(c := y0)) c' \<le> b c') \<and>
        (\<Sum>c'\<leftarrow>c # cols. (y(c := y0)) c') = m"
    using y y0 same by auto
  then show ?case by blast
qed

lemma transport_exists:
  fixes a :: "'r \<Rightarrow> int" and b :: "'c \<Rightarrow> int"
  assumes "distinct rows" and "distinct cols"
    and "\<forall>r\<in>set rows. 0 \<le> a r" and "\<forall>c\<in>set cols. 0 \<le> b c"
    and "(\<Sum>r\<leftarrow>rows. a r) = (\<Sum>c\<leftarrow>cols. b c)"
  shows "\<exists>x. (\<forall>r\<in>set rows. \<forall>c\<in>set cols. 0 \<le> x r c) \<and>
             (\<forall>r\<in>set rows. (\<Sum>c\<leftarrow>cols. x r c) = a r) \<and>
             (\<forall>c\<in>set cols. (\<Sum>r\<leftarrow>rows. x r c) = b c)"
  using assms
proof (induction rows arbitrary: b)
  case Nil
  have "\<forall>c\<in>set cols. b c = 0"
  proof
    fix c assume c: "c \<in> set cols"
    have "b c \<le> (\<Sum>c\<leftarrow>cols. b c)"
      by (rule sum_list_member_le) (use Nil.prems(4) c in auto)
    with Nil.prems(4,5) c show "b c = 0" by auto
  qed
  then show ?case by simp
next
  case (Cons r rows)
  have ar: "0 \<le> a r" using Cons.prems(3) by simp
  have nn: "0 \<le> (\<Sum>r\<leftarrow>rows. a r)"
    by (rule sum_list_nonneg) (use Cons.prems(3) in auto)
  with Cons.prems(5) have le: "a r \<le> (\<Sum>c\<leftarrow>cols. b c)" by simp
  from split_amount [OF Cons.prems(2) Cons.prems(4) ar le]
  obtain y where y: "\<forall>c\<in>set cols. 0 \<le> y c \<and> y c \<le> b c" "(\<Sum>c\<leftarrow>cols. y c) = a r"
    by blast
  define b' where "b' = (\<lambda>c. b c - y c)"
  have b'nn: "\<forall>c\<in>set cols. 0 \<le> b' c" using y(1) by (simp add: b'_def)
  have "(\<Sum>c\<leftarrow>cols. b' c) = (\<Sum>c\<leftarrow>cols. b c) - (\<Sum>c\<leftarrow>cols. y c)"
    by (simp add: b'_def sum_list_subtractf)
  with Cons.prems(5) y(2) have bal: "(\<Sum>r\<leftarrow>rows. a r) = (\<Sum>c\<leftarrow>cols. b' c)" by simp
  from Cons.IH [OF _ Cons.prems(2) _ b'nn bal] Cons.prems(1,3)
  obtain x where x: "\<forall>r\<in>set rows. \<forall>c\<in>set cols. 0 \<le> x r c"
    "\<forall>r\<in>set rows. (\<Sum>c\<leftarrow>cols. x r c) = a r"
    "\<forall>c\<in>set cols. (\<Sum>r\<leftarrow>rows. x r c) = b' c"
    by auto
  let ?x = "x(r := y)"
  have rn: "r \<notin> set rows" using Cons.prems(1) by simp
  have col: "(\<Sum>r'\<leftarrow>rows. ?x r' c) = (\<Sum>r'\<leftarrow>rows. x r' c)" for c
    by (rule sum_list_map_eqI) (use rn in auto)
  have 1: "\<forall>r'\<in>set (r # rows). \<forall>c\<in>set cols. 0 \<le> ?x r' c"
    using x(1) y(1) by auto
  have 2: "\<forall>r'\<in>set (r # rows). (\<Sum>c\<leftarrow>cols. ?x r' c) = a r'"
    using x(2) y(2) rn by auto
  have 3: "\<forall>c\<in>set cols. (\<Sum>r'\<leftarrow>r # rows. ?x r' c) = b c"
    using x(3) col by (simp add: b'_def)
  from 1 2 3 show ?case by blast
qed

lemma payers_total:
  assumes "sum_list cs = 0"
  shows "(\<Sum>d\<leftarrow>payers cs. - (cs ! d)) = (\<Sum>c\<leftarrow>payees cs. cs ! c)"
proof -
  have "(\<Sum>d\<leftarrow>payers cs. - (cs ! d)) = - (\<Sum>d\<leftarrow>payers cs. cs ! d)"
    by (simp add: uminus_sum_list_map comp_def)
  with sum_list_payees_payers [of cs] assms show ?thesis by simp
qed

lemma nx_flow_value_le:
  assumes G: "nx_graph rnd cs g = (graph, g')"
    and ok: "nx_flow_ok graph (length cs) (length cs + 1) f"
  shows "nx_value graph (length cs) f \<le> (\<Sum>d\<leftarrow>payers cs. - (cs ! d))"
  unfolding nx_value_eq [OF G]
  by (rule sum_list_mono) (use ok [unfolded nx_flow_ok_iff [OF G]] in blast)

lemma nx_full_flow_exists:
  assumes G: "nx_graph rnd cs g = (graph, g')" and bal: "sum_list cs = 0"
  shows "\<exists>f. nx_flow_ok graph (length cs) (length cs + 1) f \<and>
             nx_value graph (length cs) f = (\<Sum>d\<leftarrow>payers cs. - (cs ! d))"
proof -
  have "\<exists>x. (\<forall>d\<in>set (payers cs). \<forall>c\<in>set (payees cs). 0 \<le> x d c) \<and>
             (\<forall>d\<in>set (payers cs). (\<Sum>c\<leftarrow>payees cs. x d c) = - (cs ! d)) \<and>
             (\<forall>c\<in>set (payees cs). (\<Sum>d\<leftarrow>payers cs. x d c) = cs ! c)"
    by (rule transport_exists) (auto simp: payers_iff payees_iff payers_total [OF bal])
  then obtain x where x: "\<forall>d\<in>set (payers cs). \<forall>c\<in>set (payees cs). 0 \<le> x d c"
    "\<forall>d\<in>set (payers cs). (\<Sum>c\<leftarrow>payees cs. x d c) = - (cs ! d)"
    "\<forall>c\<in>set (payees cs). (\<Sum>d\<leftarrow>payers cs. x d c) = cs ! c"
    by blast
  define f where "f = (\<lambda>u v. if u = length cs then - (cs ! v)
                          else if v = length cs + 1 then cs ! u else x u v)"
  have fx: "f d c = x d c" if "d \<in> set (payers cs)" "c \<in> set (payees cs)" for d c
    using that by (auto simp: f_def payers_iff payees_iff)
  have fs: "f (length cs) d = - (cs ! d)" for d by (simp add: f_def)
  have ft: "f c (length cs + 1) = cs ! c" if "c \<in> set (payees cs)" for c
    using that by (auto simp: f_def payees_iff)
  have row: "(\<Sum>c\<leftarrow>payees cs. f d c) = - (cs ! d)" if d: "d \<in> set (payers cs)" for d
  proof -
    have "(\<Sum>c\<leftarrow>payees cs. f d c) = (\<Sum>c\<leftarrow>payees cs. x d c)"
      by (rule sum_list_map_eqI) (simp add: fx d)
    with x(2) d show ?thesis by simp
  qed
  have col: "(\<Sum>d\<leftarrow>payers cs. f d c) = cs ! c" if c: "c \<in> set (payees cs)" for c
  proof -
    have "(\<Sum>d\<leftarrow>payers cs. f d c) = (\<Sum>d\<leftarrow>payers cs. x d c)"
      by (rule sum_list_map_eqI) (simp add: fx c)
    with x(3) c show ?thesis by simp
  qed
  have up: "f d c \<le> min (- (cs ! d)) (cs ! c)"
    if d: "d \<in> set (payers cs)" and c: "c \<in> set (payees cs)" for d c
  proof -
    have "f d c \<le> (\<Sum>c\<leftarrow>payees cs. f d c)"
      by (rule sum_list_member_le) (use x(1) d c fx in auto)
    moreover have "f d c \<le> (\<Sum>d\<leftarrow>payers cs. f d c)"
      by (rule sum_list_member_le [where h = "\<lambda>d. f d c"]) (use x(1) d c fx in auto)
    ultimately show ?thesis using row [OF d] col [OF c] by simp
  qed
  have "nx_flow_ok graph (length cs) (length cs + 1) f"
    unfolding nx_flow_ok_iff [OF G]
    using fs ft row col up x(1) fx by (auto simp: payers_iff payees_iff)
  moreover have "nx_value graph (length cs) f = (\<Sum>d\<leftarrow>payers cs. - (cs ! d))"
    unfolding nx_value_eq [OF G] by (rule sum_list_map_eqI) (simp add: fs)
  ultimately show ?thesis by blast
qed

lemma nx_max_flow_saturates:
  assumes G: "nx_graph rnd cs g = (graph, g')" and bal: "sum_list cs = 0"
    and mx: "nx_max_flow graph (length cs) (length cs + 1) f"
  shows "(\<forall>d\<in>set (payers cs). (\<Sum>c\<leftarrow>payees cs. f d c) = - (cs ! d)) \<and>
         (\<forall>c\<in>set (payees cs). (\<Sum>d\<leftarrow>payers cs. f d c) = cs ! c)"
proof -
  from mx have ok: "nx_flow_ok graph (length cs) (length cs + 1) f"
    and best: "\<And>f'. nx_flow_ok graph (length cs) (length cs + 1) f' \<Longrightarrow>
        nx_value graph (length cs) f' \<le> nx_value graph (length cs) f"
    by (auto simp: nx_max_flow_def)
  note iff = ok [unfolded nx_flow_ok_iff [OF G]]
  from nx_full_flow_exists [OF G bal] best nx_flow_value_le [OF G ok]
  have val: "(\<Sum>d\<leftarrow>payers cs. f (length cs) d) = (\<Sum>d\<leftarrow>payers cs. - (cs ! d))"
    unfolding nx_value_eq [OF G] by force
  have src: "f (length cs) d = - (cs ! d)" if "d \<in> set (payers cs)" for d
    by (rule sum_list_le_eq [OF _ val that]) (use iff in blast)
  have rows: "(\<Sum>c\<leftarrow>payees cs. f d c) = - (cs ! d)" if "d \<in> set (payers cs)" for d
    using iff src [OF that] that by auto
  have "(\<Sum>c\<leftarrow>payees cs. f c (length cs + 1)) = (\<Sum>c\<leftarrow>payees cs. \<Sum>d\<leftarrow>payers cs. f d c)"
    by (rule sum_list_map_eqI) (use iff in auto)
  also have "\<dots> = (\<Sum>d\<leftarrow>payers cs. \<Sum>c\<leftarrow>payees cs. f d c)"
    by (rule sum_list_swap)
  also have "\<dots> = (\<Sum>d\<leftarrow>payers cs. - (cs ! d))"
    by (rule sum_list_map_eqI) (simp add: rows)
  also have "\<dots> = (\<Sum>c\<leftarrow>payees cs. cs ! c)"
    by (rule payers_total [OF bal])
  finally have tot: "(\<Sum>c\<leftarrow>payees cs. f c (length cs + 1)) = (\<Sum>c\<leftarrow>payees cs. cs ! c)" .
  have snk: "f c (length cs + 1) = cs ! c" if "c \<in> set (payees cs)" for c
    by (rule sum_list_le_eq [OF _ tot that]) (use iff in blast)
  have cols: "(\<Sum>d\<leftarrow>payers cs. f d c) = cs ! c" if "c \<in> set (payees cs)" for c
    using iff snk [OF that] that by auto
  from rows cols show ?thesis by blast
qed

subsection \<open>One trial of the networkx backend\<close>

lemma nx_extract_received:
  "nx_extract fd ps s0 = Inr s \<Longrightarrow>
   received s c = received s0 c +
     (\<Sum>(p, x)\<leftarrow>filter (\<lambda>(p, x). x < 0) ps.
        \<Sum>(pt, a)\<leftarrow>(case map_of fd p of None \<Rightarrow> [] | Some items \<Rightarrow> items).
          if a > 0 \<and> pt = c then a else 0)"
proof (induction ps arbitrary: s0)
  case Nil
  then show ?case by simp
next
  case (Cons q ps)
  obtain p x where q: "q = (p, x)" by (cases q)
  show ?case
  proof (cases "x \<ge> 0")
    case True
    with Cons q show ?thesis by simp
  next
    case False
    with Cons.prems q obtain items where it: "map_of fd p = Some items"
      and ex: "nx_extract fd ps (nx_payments p items s0) = Inr s"
      by (auto split: option.splits)
    from Cons.IH [OF ex] False q it show ?thesis
      by (simp add: received_nx_payments)
  qed
qed

lemma nx_extract_paid:
  "nx_extract fd ps s0 = Inr s \<Longrightarrow>
   paid s d = paid s0 d +
     (\<Sum>(p, x)\<leftarrow>filter (\<lambda>(p, x). x < 0) ps.
        if p = d then
          (\<Sum>(pt, a)\<leftarrow>(case map_of fd p of None \<Rightarrow> [] | Some items \<Rightarrow> items).
             if a > 0 then a else 0)
        else 0)"
proof (induction ps arbitrary: s0)
  case Nil
  then show ?case by simp
next
  case (Cons q ps)
  obtain p x where q: "q = (p, x)" by (cases q)
  show ?case
  proof (cases "x \<ge> 0")
    case True
    with Cons q show ?thesis by simp
  next
    case False
    with Cons.prems q obtain items where it: "map_of fd p = Some items"
      and ex: "nx_extract fd ps (nx_payments p items s0) = Inr s"
      by (auto split: option.splits)
    from Cons.IH [OF ex] False q it show ?thesis
      by (auto simp: paid_nx_payments)
  qed
qed

lemma nx_extract_cost:
  "nx_extract fd ps s0 = Inr s \<Longrightarrow>
   settlement_cost s = settlement_cost s0 +
     (\<Sum>(p, x)\<leftarrow>filter (\<lambda>(p, x). x < 0) ps.
        int (length (filter (\<lambda>(pt, a). a > 0)
               (case map_of fd p of None \<Rightarrow> [] | Some items \<Rightarrow> items))))"
proof (induction ps arbitrary: s0)
  case Nil
  then show ?case by simp
next
  case (Cons q ps)
  obtain p x where q: "q = (p, x)" by (cases q)
  show ?case
  proof (cases "x \<ge> 0")
    case True
    with Cons q show ?thesis by simp
  next
    case False
    with Cons.prems q obtain items where it: "map_of fd p = Some items"
      and ex: "nx_extract fd ps (nx_payments p items s0) = Inr s"
      by (auto split: option.splits)
    from Cons.IH [OF ex] False q it show ?thesis
      by (simp add: settlement_cost_nx_payments)
  qed
qed

lemma nx_extract_members:
  "nx_extract fd ps s0 = Inr s \<Longrightarrow> (k, p, a) \<in> set (entries s) \<Longrightarrow>
   (k, p, a) \<in> set (entries s0) \<or>
   (\<exists>x items. (p, x) \<in> set ps \<and> x < 0 \<and> map_of fd p = Some items \<and> (k, a) \<in> set items)"
proof (induction ps arbitrary: s0)
  case Nil
  then show ?case by simp
next
  case (Cons q ps)
  obtain p' x where q: "q = (p', x)" by (cases q)
  show ?case
  proof (cases "x \<ge> 0")
    case True
    with Cons q show ?thesis by auto
  next
    case False
    with Cons.prems q obtain items where it: "map_of fd p' = Some items"
      and ex: "nx_extract fd ps (nx_payments p' items s0) = Inr s"
      by (auto split: option.splits)
    from Cons.IH [OF ex Cons.prems(2)] False q it show ?thesis
      by (auto simp: set_entries_nx_payments)
  qed
qed

lemma nx_extract_returns:
  "\<forall>(p, x)\<in>set ps. x < 0 \<longrightarrow> map_of fd p \<noteq> None \<Longrightarrow> \<exists>s. nx_extract fd ps s0 = Inr s"
  by (induction ps arbitrary: s0) (auto split: option.splits)

lemma fd_shape_payer:
  assumes G: "nx_graph rnd cs g = (graph, g')" and shape: "fd_shape graph fd"
    and d: "d \<in> set (payers cs)"
  shows "\<exists>items. map_of fd d = Some items \<and> distinct (map fst items) \<and>
           set (map fst items) = set (payees cs)"
proof -
  let ?T = "set (map (\<lambda>e. (e_from e, e_to e, e_capacity e)) graph)"
  from d have "(length cs, d, - (cs ! d)) \<in> ?T" unfolding nx_graph_triples [OF G] by blast
  then have "d \<in> set (map e_to graph)" by force
  then have node: "d \<in> set (nx_nodes graph)" by (simp add: nx_nodes_def)
  have succ: "set (map e_to (filter (\<lambda>e. e_from e = d) graph)) = {b. \<exists>c. (d, b, c) \<in> ?T}"
    by force
  have "{b. \<exists>c. (d, b, c) \<in> ?T} = set (payees cs)"
    unfolding nx_graph_triples [OF G] using d by (auto simp: payers_iff payees_iff)
  with succ have s: "set (map e_to (filter (\<lambda>e. e_from e = d) graph)) = set (payees cs)"
    by simp
  from shape node have "case map_of fd d of None \<Rightarrow> False
      | Some items \<Rightarrow> distinct (map fst items) \<and>
          set (map fst items) = set (map e_to (filter (\<lambda>e. e_from e = d) graph))"
    by (simp add: fd_shape_def list_all_iff)
  with s show ?thesis by (auto split: option.splits)
qed

lemma items_sum:
  fixes F :: "nat \<Rightarrow> int \<Rightarrow> int"
  assumes fd: "map_of fd d = Some items" and dist: "distinct (map fst items)"
    and keys: "set (map fst items) = set ys" and ys: "distinct ys"
  shows "(\<Sum>(pt, a)\<leftarrow>items. F pt a) = (\<Sum>c\<leftarrow>ys. F c (fd_flow fd d c))"
proof -
  have v: "fd_flow fd d pt = a" if "(pt, a) \<in> set items" for pt a
    using that dist fd by (simp add: fd_flow_def)
  have "(\<Sum>(pt, a)\<leftarrow>items. F pt a) = (\<Sum>(pt, a)\<leftarrow>items. F pt (fd_flow fd d pt))"
    by (rule sum_list_map_eqI) (auto simp: v)
  also have "\<dots> = (\<Sum>pt\<leftarrow>map fst items. F pt (fd_flow fd d pt))"
    by (simp add: comp_def case_prod_unfold)
  also have "\<dots> = (\<Sum>pt\<in>set (map fst items). F pt (fd_flow fd d pt))"
    using dist by (simp only: sum_list_distinct_conv_sum_set)
  also have "\<dots> = (\<Sum>c\<leftarrow>ys. F c (fd_flow fd d c))"
    unfolding keys using ys by (simp only: sum_list_distinct_conv_sum_set)
  finally show ?thesis .
qed

lemma nx_trial_zeroes:
  assumes G: "nx_graph rnd cs g = (graph, g')" and bal: "sum_list cs = 0"
    and shape: "fd_shape graph fd"
    and mx: "nx_max_flow graph (length cs) (length cs + 1) (fd_flow fd)"
    and ex: "nx_extract fd (enumerate 0 cs) [] = Inr s"
  shows "zeroes cs s"
proof -
  let ?f = "fd_flow fd"
  from mx have ok: "nx_flow_ok graph (length cs) (length cs + 1) ?f"
    by (simp add: nx_max_flow_def)
  note iff = ok [unfolded nx_flow_ok_iff [OF G]]
  have nonneg: "0 \<le> ?f d c" if "d \<in> set (payers cs)" "c \<in> set (payees cs)" for d c
    using iff that by blast
  note sat = nx_max_flow_saturates [OF G bal mx]
  have pos_sum: "(\<Sum>(pt, a)\<leftarrow>(case map_of fd d of None \<Rightarrow> [] | Some items \<Rightarrow> items).
                    if a > 0 then a else 0) = (\<Sum>c\<leftarrow>payees cs. ?f d c)"
    if d: "d \<in> set (payers cs)" for d
  proof -
    from fd_shape_payer [OF G shape d] obtain items where it: "map_of fd d = Some items"
      "distinct (map fst items)" "set (map fst items) = set (payees cs)" by blast
    have "(\<Sum>(pt, a)\<leftarrow>items. if a > 0 then a else 0) =
          (\<Sum>c\<leftarrow>payees cs. if ?f d c > 0 then ?f d c else 0)"
      by (rule items_sum [OF it]) simp
    also have "\<dots> = (\<Sum>c\<leftarrow>payees cs. ?f d c)"
      by (rule sum_list_map_eqI) (use nonneg [OF d] in force)
    finally show ?thesis using it(1) by simp
  qed
  have to_sum: "(\<Sum>(pt, a)\<leftarrow>(case map_of fd d of None \<Rightarrow> [] | Some items \<Rightarrow> items).
                    if a > 0 \<and> pt = c then a else 0) = ?f d c"
    if d: "d \<in> set (payers cs)" and c: "c \<in> set (payees cs)" for d c
  proof -
    from fd_shape_payer [OF G shape d] obtain items where it: "map_of fd d = Some items"
      "distinct (map fst items)" "set (map fst items) = set (payees cs)" by blast
    have "(\<Sum>(pt, a)\<leftarrow>items. if a > 0 \<and> pt = c then a else 0) =
          (\<Sum>c'\<leftarrow>payees cs. if ?f d c' > 0 \<and> c' = c then ?f d c' else 0)"
      by (rule items_sum [OF it]) simp
    also have "\<dots> = (\<Sum>c'\<leftarrow>payees cs. if c' = c then ?f d c' else 0)"
      by (rule sum_list_map_eqI) (use nonneg [OF d] in force)
    also have "\<dots> = ?f d c" using c by (simp add: sum_list_single)
    finally show ?thesis using it(1) by simp
  qed
  have "received s c = cs ! c" if c: "c < length cs" "cs ! c > 0" for c
  proof -
    from c have c': "c \<in> set (payees cs)" by (simp add: payees_iff)
    have "received s c = (\<Sum>d\<leftarrow>payers cs.
        \<Sum>(pt, a)\<leftarrow>(case map_of fd d of None \<Rightarrow> [] | Some items \<Rightarrow> items).
          if a > 0 \<and> pt = c then a else 0)"
      unfolding nx_extract_received [OF ex] filter_enumerate_neg
      by (simp add: received_def comp_def)
    also have "\<dots> = (\<Sum>d\<leftarrow>payers cs. ?f d c)"
      by (rule sum_list_map_eqI) (simp add: to_sum c')
    finally show ?thesis using sat c' by simp
  qed
  moreover have "paid s d = - (cs ! d)" if d: "d < length cs" "cs ! d < 0" for d
  proof -
    from d have d': "d \<in> set (payers cs)" by (simp add: payers_iff)
    have "paid s d = (\<Sum>p\<leftarrow>payers cs. if p = d then
        (\<Sum>(pt, a)\<leftarrow>(case map_of fd p of None \<Rightarrow> [] | Some items \<Rightarrow> items).
           if a > 0 then a else 0) else 0)"
      unfolding nx_extract_paid [OF ex] filter_enumerate_neg
      by (simp add: paid_def comp_def)
    also have "\<dots> = (\<Sum>(pt, a)\<leftarrow>(case map_of fd d of None \<Rightarrow> [] | Some items \<Rightarrow> items).
           if a > 0 then a else 0)"
      using d' by (simp add: sum_list_single)
    finally show ?thesis using pos_sum [OF d'] sat d' by simp
  qed
  ultimately show ?thesis by (simp add: zeroes_def list_all_iff)
qed

lemma nx_finder_cases:
  assumes "fst (find_settlement_nx mfmc rnd cs trial g) = Inr s"
  obtains graph g' fd where "nx_graph rnd cs g = (graph, g')"
    and "mfmc graph (length cs) (length cs + 1) = Inr fd"
    and "nx_extract fd (enumerate 0 cs) [] = Inr s"
  using assms
  by (auto simp: find_settlement_nx_def split: prod.splits sum.splits)

lemma nx_finder_zeroes:
  assumes r: "fst (find_settlement_nx mfmc rnd cs trial g) = Inr s"
    and sound: "nx_sound mfmc (fst (nx_graph rnd cs g)) (length cs) (length cs + 1)"
    and bal: "sum_list cs = 0"
  shows "zeroes cs s"
proof -
  from r obtain graph g' fd where G: "nx_graph rnd cs g = (graph, g')"
    and fd: "mfmc graph (length cs) (length cs + 1) = Inr fd"
    and ex: "nx_extract fd (enumerate 0 cs) [] = Inr s"
    by (rule nx_finder_cases)
  from sound G fd have "fd_shape graph fd"
    "nx_max_flow graph (length cs) (length cs + 1) (fd_flow fd)"
    by (simp_all add: nx_sound_def)
  from nx_trial_zeroes [OF G bal this ex] show ?thesis .
qed

lemma nx_finder_members:
  assumes r: "fst (find_settlement_nx mfmc rnd cs trial g) = Inr s"
    and sound: "nx_sound mfmc (fst (nx_graph rnd cs g)) (length cs) (length cs + 1)"
    and m: "(k, p, a) \<in> set (entries s)"
  shows "k < length cs \<and> p < length cs \<and> cs ! k > 0 \<and> cs ! p < 0"
proof -
  from r obtain graph g' fd where G: "nx_graph rnd cs g = (graph, g')"
    and fd: "mfmc graph (length cs) (length cs + 1) = Inr fd"
    and ex: "nx_extract fd (enumerate 0 cs) [] = Inr s"
    by (rule nx_finder_cases)
  from sound G fd have shape: "fd_shape graph fd" by (simp add: nx_sound_def)
  from nx_extract_members [OF ex m] obtain x items
    where px: "(p, x) \<in> set (enumerate 0 cs)" "x < 0" and it: "map_of fd p = Some items"
      and ka: "(k, a) \<in> set items"
    by auto
  from px have p: "p \<in> set (payers cs)" by (auto simp: in_set_enumerate_eq payers_iff)
  from fd_shape_payer [OF G shape p] it have "set (map fst items) = set (payees cs)" by auto
  with ka have "k \<in> set (payees cs)" by force
  with p show ?thesis by (simp add: payers_iff payees_iff)
qed

lemma length_payers_payees: "length (payers cs) * length (payees cs) \<le> length cs * length cs"
proof (rule mult_le_mono)
  show "length (payers cs) \<le> length cs"
    using length_filter_le [of "\<lambda>i. cs ! i < 0" "[0..<length cs]"] by (simp add: payers_def)
  show "length (payees cs) \<le> length cs"
    using length_filter_le [of "\<lambda>i. cs ! i > 0" "[0..<length cs]"] by (simp add: payees_def)
qed

lemma nx_finder_cost:
  assumes r: "fst (find_settlement_nx mfmc rnd cs trial g) = Inr s"
    and sound: "nx_sound mfmc (fst (nx_graph rnd cs g)) (length cs) (length cs + 1)"
  shows "settlement_cost s \<le> int (length cs) * int (length cs)"
proof -
  from r obtain graph g' fd where G: "nx_graph rnd cs g = (graph, g')"
    and fd: "mfmc graph (length cs) (length cs + 1) = Inr fd"
    and ex: "nx_extract fd (enumerate 0 cs) [] = Inr s"
    by (rule nx_finder_cases)
  from sound G fd have shape: "fd_shape graph fd" by (simp add: nx_sound_def)
  have one: "int (length (filter (\<lambda>(pt, a). a > 0)
       (case map_of fd d of None \<Rightarrow> [] | Some items \<Rightarrow> items))) \<le> int (length (payees cs))"
    if d: "d \<in> set (payers cs)" for d
  proof -
    from fd_shape_payer [OF G shape d] obtain items where it: "map_of fd d = Some items"
      "distinct (map fst items)" "set (map fst items) = set (payees cs)" by blast
    have "length items = length (map fst items)" by simp
    also have "\<dots> = card (set (map fst items))" using it(2) by (simp only: distinct_card)
    also have "\<dots> = length (payees cs)" unfolding it(3) by (simp add: distinct_card)
    finally have "length items = length (payees cs)" .
    moreover have "length (filter (\<lambda>(pt, a). a > 0) items) \<le> length items"
      by (rule length_filter_le)
    ultimately show ?thesis using it(1) by simp
  qed
  have "settlement_cost s = (\<Sum>d\<leftarrow>payers cs. int (length (filter (\<lambda>(pt, a). a > 0)
       (case map_of fd d of None \<Rightarrow> [] | Some items \<Rightarrow> items))))"
    unfolding nx_extract_cost [OF ex] filter_enumerate_neg
    by (simp add: settlement_cost_def comp_def)
  also have "\<dots> \<le> (\<Sum>d\<leftarrow>payers cs. int (length (payees cs)))"
    by (rule sum_list_mono) (rule one)
  also have "\<dots> = int (length (payers cs) * length (payees cs))"
    by (simp add: sum_list_triv)
  also have "\<dots> \<le> int (length cs * length cs)"
    using length_payers_payees [of cs] by (simp only: of_nat_le_iff)
  finally show ?thesis by simp
qed

lemma nx_finder_returns:
  assumes G: "nx_graph rnd cs g = (graph, g')"
    and fd: "mfmc graph (length cs) (length cs + 1) = Inr fd"
    and shape: "fd_shape graph fd"
  shows "\<exists>s. fst (find_settlement_nx mfmc rnd cs trial g) = Inr s"
proof -
  have "map_of fd p \<noteq> None" if "(p, x) \<in> set (enumerate 0 cs)" "x < 0" for p x
  proof -
    from that have "p \<in> set (payers cs)" by (auto simp: in_set_enumerate_eq payers_iff)
    from fd_shape_payer [OF G shape this] show ?thesis by auto
  qed
  then have "\<forall>(p, x)\<in>set (enumerate 0 cs). x < 0 \<longrightarrow> map_of fd p \<noteq> None" by blast
  from nx_extract_returns [OF this, of "[]"] G fd show ?thesis
    by (simp add: find_settlement_nx_def)
qed

subsection \<open>The pool\<close>

lemma mapstar_results:
  "mapstar func is g = (Inr rs, g') \<Longrightarrow> r \<in> set rs \<Longrightarrow> \<exists>i g0. fst (func i g0) = Inr r"
proof (induction "is" arbitrary: g rs g')
  case Nil
  then show ?case by simp
next
  case (Cons i "is")
  obtain x g1 where f: "func i g = (x, g1)" by (cases "func i g")
  with Cons.prems(1) obtain r0 where x: "x = Inr r0" by (cases x) auto
  obtain y g2 where m: "mapstar func is g1 = (y, g2)" by (cases "mapstar func is g1")
  with Cons.prems(1) f x obtain rs0 where y: "y = Inr rs0" by (cases y) auto
  from Cons.prems(1) f x m y have rs: "rs = r0 # rs0" by simp
  with Cons.prems(2) have "r = r0 \<or> r \<in> set rs0" by simp
  then show ?case
  proof
    assume "r = r0"
    with f x have "fst (func i g) = Inr r" by simp
    then show ?thesis by blast
  next
    assume "r \<in> set rs0"
    from Cons.IH [OF _ this] m y show ?thesis by simp
  qed
qed

lemma mapstar_length:
  "mapstar func is g = (Inr rs, g') \<Longrightarrow> length rs = length is"
  by (induction "is" arbitrary: g rs) (auto split: prod.splits sum.splits)

lemma mapstar_all_right:
  "(\<And>i g. \<exists>r. fst (func i g) = Inr r) \<Longrightarrow> \<exists>rs g'. mapstar func is g = (Inr rs, g')"
proof (induction "is" arbitrary: g)
  case Nil
  then show ?case by simp
next
  case (Cons i "is")
  from Cons.prems [of i g] obtain r g1 where f: "func i g = (Inr r, g1)"
    by (cases "func i g") auto
  from Cons.IH [OF Cons.prems, of g1] obtain rs g2 where "mapstar func is g1 = (Inr rs, g2)"
    by blast
  with f show ?case by simp
qed

lemma pool_run_results:
  "Inr r \<in> set (pool_run func tasks gens sched) \<Longrightarrow> \<exists>i g. fst (func i g) = Inr r"
proof (induction sched arbitrary: gens)
  case Nil
  then show ?case by simp
next
  case (Cons bw sched)
  obtain b w where bw: "bw = (b, w)" by (cases bw)
  show ?case
  proof (cases "b < length tasks")
    case False
    with Cons bw show ?thesis by simp
  next
    case True
    obtain y g' where m: "mapstar func (tasks ! b) (gens w) = (y, g')"
      by (cases "mapstar func (tasks ! b) (gens w)")
    show ?thesis
    proof (cases y)
      case (Inl e)
      with Cons.prems bw True m
      have "Inr r \<in> set (pool_run func tasks (gens(w := g')) sched)" by simp
      from Cons.IH [OF this] show ?thesis .
    next
      case (Inr rs)
      with Cons.prems bw True m
      have "r \<in> set rs \<or> Inr r \<in> set (pool_run func tasks (gens(w := g')) sched)" by auto
      then show ?thesis
      proof
        assume "r \<in> set rs"
        from mapstar_results [OF _ this] m Inr show ?thesis by simp
      next
        assume "Inr r \<in> set (pool_run func tasks (gens(w := g')) sched)"
        from Cons.IH [OF this] show ?thesis .
      qed
    qed
  qed
qed

lemma pool_run_all_right:
  assumes "\<And>i g. \<exists>r. fst (func i g) = Inr r"
  shows "x \<in> set (pool_run func tasks gens sched) \<Longrightarrow> \<exists>r. x = Inr r"
proof (induction sched arbitrary: gens)
  case Nil
  then show ?case by simp
next
  case (Cons bw sched)
  obtain b w where bw: "bw = (b, w)" by (cases bw)
  show ?case
  proof (cases "b < length tasks")
    case False
    with Cons bw show ?thesis by simp
  next
    case True
    from mapstar_all_right [of func "tasks ! b" "gens w"] assms
    obtain rs g' where m: "mapstar func (tasks ! b) (gens w) = (Inr rs, g')" by blast
    with Cons.prems bw True
    have "x \<in> Inr ` set rs \<or> x \<in> set (pool_run func tasks (gens(w := g')) sched)" by auto
    with Cons.IH show ?thesis by blast
  qed
qed

lemma get_tasks_nonempty:
  "0 < k \<Longrightarrow> xs \<noteq> [] \<Longrightarrow> get_tasks k xs \<noteq> []"
  by (subst get_tasks.simps) simp

lemma get_tasks_members:
  "0 < k \<Longrightarrow> t \<in> set (get_tasks k xs) \<Longrightarrow> t \<noteq> []"
proof (induction k xs rule: get_tasks.induct)
  case (1 chunksize xs)
  show ?case
  proof (cases "xs = []")
    case True
    with "1.prems" show ?thesis by (subst (asm) get_tasks.simps) simp
  next
    case False
    with "1.prems" have "t = take chunksize xs \<or> t \<in> set (get_tasks chunksize (drop chunksize xs))"
      by (subst (asm) get_tasks.simps) auto
    then show ?thesis
    proof
      assume "t = take chunksize xs"
      with False "1.prems"(1) show ?thesis by simp
    next
      assume "t \<in> set (get_tasks chunksize (drop chunksize xs))"
      with "1.IH" False "1.prems"(1) show ?thesis by simp
    qed
  qed
qed

lemma concat_get_tasks: "0 < k \<Longrightarrow> concat (get_tasks k xs) = xs"
proof (induction k xs rule: get_tasks.induct)
  case (1 chunksize xs)
  show ?case
  proof (cases "xs = []")
    case True
    then show ?thesis by (subst get_tasks.simps) simp
  next
    case False
    with "1.IH" "1.prems" have "concat (get_tasks chunksize (drop chunksize xs)) = drop chunksize xs"
      by simp
    with False "1.prems" show ?thesis by (subst get_tasks.simps) simp
  qed
qed

lemma pool_run_nonempty:
  assumes valid: "valid_schedule (length tasks) workers sched"
    and tasks: "tasks \<noteq> []" and ne: "\<And>t. t \<in> set tasks \<Longrightarrow> t \<noteq> []"
  shows "pool_run func tasks gens sched \<noteq> []"
proof -
  from valid have ms: "mset (map fst sched) = mset [0..<length tasks]"
    by (simp add: valid_schedule_def)
  from tasks have "[0..<length tasks] \<noteq> []" by simp
  with ms have "sched \<noteq> []" by (metis list.map_disc_iff mset_zero_iff)
  then obtain b w rest where sched: "sched = (b, w) # rest" by (cases sched) auto
  from ms have "set (map fst sched) = set [0..<length tasks]" by (rule mset_eq_setD)
  with sched have b: "b < length tasks" by auto
  then have tne: "tasks ! b \<noteq> []" using ne by simp
  obtain y g' where m: "mapstar func (tasks ! b) (gens w) = (y, g')"
    by (cases "mapstar func (tasks ! b) (gens w)")
  show ?thesis
  proof (cases y)
    case (Inl e)
    with sched b m show ?thesis by simp
  next
    case (Inr rs)
    with m have "length rs = length (tasks ! b)" by (simp add: mapstar_length)
    with tne have "rs \<noteq> []" by auto
    with Inr sched b m show ?thesis by simp
  qed
qed

subsection \<open>The loop that keeps the best settlement\<close>

lemma best_loop_no_error:
  "best_loop items (bc, bs) = Inr r \<Longrightarrow> x \<in> set items \<Longrightarrow> \<exists>s. x = Inr s"
proof (induction items arbitrary: bc bs)
  case Nil
  then show ?case by simp
next
  case (Cons y items)
  then show ?case
    by (cases y) (auto simp: Let_def split: if_splits)
qed

lemma best_loop_returns:
  "(\<And>x. x \<in> set items \<Longrightarrow> \<exists>s. x = Inr s) \<Longrightarrow> \<exists>r. best_loop items (bc, bs) = Inr r"
proof (induction items arbitrary: bc bs)
  case Nil
  then show ?case by simp
next
  case (Cons y items)
  from Cons.prems [of y] obtain s where y: "y = Inr s" by auto
  from Cons.IH Cons.prems have "\<exists>r. best_loop items (bc', bs') = Inr r" for bc' bs'
    by simp
  with y show ?case by (simp add: Let_def)
qed

lemma best_loop_error:
  "Inl e \<in> set items \<Longrightarrow> \<exists>e'. best_loop items (bc, bs) = Inl e'"
proof (induction items arbitrary: bc bs)
  case Nil
  then show ?case by simp
next
  case (Cons y items)
  then show ?case
    by (cases y) (auto simp: Let_def)
qed

text \<open>
  What the loop returns: either the settlement it started with, when no item is cheaper,
  or the first item among the cheapest ones.
\<close>

lemma best_loop_result:
  assumes "best_loop items (bc, bs) = Inr r"
  shows "(r = bs \<and> (\<forall>s. Inr s \<in> set items \<longrightarrow> bc \<le> settlement_cost s)) \<or>
         (\<exists>k s. k < length items \<and> items ! k = Inr s \<and> r = Some s \<and> settlement_cost s < bc \<and>
            (\<forall>j s'. j < length items \<and> items ! j = Inr s' \<longrightarrow> settlement_cost s \<le> settlement_cost s') \<and>
            (\<forall>j s'. j < k \<and> items ! j = Inr s' \<longrightarrow> settlement_cost s < settlement_cost s'))"
  using assms
proof (induction items arbitrary: bc bs)
  case Nil
  then show ?case by simp
next
  case (Cons y items)
  from Cons.prems obtain x where y: "y = Inr x" by (cases y) auto
  let ?P = "\<lambda>items k s b. k < length items \<and> items ! k = Inr s \<and> r = Some s \<and>
      settlement_cost s < b \<and>
      (\<forall>j s'. j < length items \<and> items ! j = Inr s' \<longrightarrow> settlement_cost s \<le> settlement_cost s') \<and>
      (\<forall>j s'. j < k \<and> items ! j = Inr s' \<longrightarrow> settlement_cost s < settlement_cost s')"
  show ?case
  proof (cases "settlement_cost x < bc")
    case True
    with Cons.prems y have run: "best_loop items (settlement_cost x, Some x) = Inr r"
      by (simp add: Let_def)
    from Cons.IH [OF run] consider
      (keep) "r = Some x" "\<forall>s. Inr s \<in> set items \<longrightarrow> settlement_cost x \<le> settlement_cost s"
      | (later) k s where "?P items k s (settlement_cost x)"
      by blast
    then show ?thesis
    proof cases
      case keep
      have "settlement_cost x \<le> settlement_cost s'"
        if "j < length items" "items ! j = Inr s'" for j s'
        using keep(2) that by (metis nth_mem)
      then have "?P (y # items) 0 x bc"
        using keep(1) True y by (auto simp: nth_Cons split: nat.splits)
      then show ?thesis by blast
    next
      case later
      have "?P (y # items) (Suc k) s bc"
        using later True y by (auto simp: nth_Cons split: nat.splits)
      then show ?thesis by blast
    qed
  next
    case False
    with Cons.prems y have run: "best_loop items (bc, bs) = Inr r"
      by (simp add: Let_def)
    from Cons.IH [OF run] consider
      (keep) "r = bs" "\<forall>s. Inr s \<in> set items \<longrightarrow> bc \<le> settlement_cost s"
      | (later) k s where "?P items k s bc"
      by blast
    then show ?thesis
    proof cases
      case keep
      with False y show ?thesis by auto
    next
      case later
      have "?P (y # items) (Suc k) s bc"
        using later False y by (auto simp: nth_Cons split: nat.splits)
      then show ?thesis by blast
    qed
  qed
qed

lemma find_best_unfold:
  assumes "0 < cpu_count"
    and "imap_unordered (finder cs) n (ceil_div n (int cpu_count)) gens sched = Inr items"
  shows "find_best_settlement finder cs n cpu_count gens sched =
         best_loop items (int (length cs) * int (length cs) + 1, None)"
  using assms by (simp add: find_best_settlement_def)

lemma find_best_items:
  assumes "find_best_settlement finder cs n cpu_count gens sched = Inr r"
  obtains items where "0 < cpu_count"
    and "imap_unordered (finder cs) n (ceil_div n (int cpu_count)) gens sched = Inr items"
    and "best_loop items (int (length cs) * int (length cs) + 1, None) = Inr r"
  using assms
  by (auto simp: find_best_settlement_def Let_def split: if_splits sum.splits)

lemma find_best_from_trial:
  assumes "find_best_settlement finder cs n cpu_count gens sched = Inr (Some s)"
  shows "\<exists>i g. fst (finder cs i g) = Inr s"
proof -
  from assms obtain items where
    im: "imap_unordered (finder cs) n (ceil_div n (int cpu_count)) gens sched = Inr items"
    and bl: "best_loop items (int (length cs) * int (length cs) + 1, None) = Inr (Some s)"
    by (rule find_best_items)
  from best_loop_result [OF bl] obtain k where "k < length items" "items ! k = Inr s"
    by auto
  then have "Inr s \<in> set items" by (metis nth_mem)
  with im have "Inr s \<in> set (pool_run (finder cs)
      (get_tasks (nat (ceil_div n (int cpu_count))) [0..<nat n]) gens sched)"
    by (auto simp: imap_unordered_def split: if_splits)
  from pool_run_results [OF this] show ?thesis .
qed

subsection \<open>The search\<close>

lemma ceil_div_pos: "1 \<le> n \<Longrightarrow> 0 < c \<Longrightarrow> 1 \<le> ceil_div n (int c)"
proof -
  assume n: "1 \<le> n" and c: "0 < c"
  have "(- n) div int c < 0" using n c by (simp add: pos_imp_zdiv_neg_iff)
  then show ?thesis by (simp add: ceil_div_def)
qed

lemma imap_unordered_pool_tasks:
  "1 \<le> ceil_div n (int c) \<Longrightarrow>
   imap_unordered func n (ceil_div n (int c)) gens sched =
     Inr (pool_run func (pool_tasks n c) gens sched)"
  by (simp add: imap_unordered_def pool_tasks_def)

lemma pool_tasks_nonempty:
  assumes "1 \<le> n" and "0 < c"
  shows "pool_tasks n c \<noteq> []" and "\<And>t. t \<in> set (pool_tasks n c) \<Longrightarrow> t \<noteq> []"
    and "concat (pool_tasks n c) = [0..<nat n]"
proof -
  from ceil_div_pos [OF assms] have k: "0 < nat (ceil_div n (int c))" by simp
  from assms(1) have ne: "[0..<nat n] \<noteq> []" by simp
  show "pool_tasks n c \<noteq> []"
    unfolding pool_tasks_def by (rule get_tasks_nonempty [OF k ne])
  show "t \<noteq> []" if "t \<in> set (pool_tasks n c)" for t
    using that unfolding pool_tasks_def by (rule get_tasks_members [OF k])
  show "concat (pool_tasks n c) = [0..<nat n]"
    unfolding pool_tasks_def by (rule concat_get_tasks [OF k])
qed

text \<open>
  The starting cost is above the cost of every settlement a trial can return, so a search
  of at least one trial that raises nothing returns a settlement.
\<close>

lemma find_best_some:
  assumes n: "1 \<le> n" and c: "0 < c"
    and valid: "valid_schedule (length (pool_tasks n c)) c sched"
    and bound: "\<And>i g s. fst (finder cs i g) = Inr s \<Longrightarrow>
        settlement_cost s \<le> int (length cs) * int (length cs)"
    and run: "find_best_settlement finder cs n c gens sched = Inr r"
  shows "\<exists>s. r = Some s"
proof -
  let ?items = "pool_run (finder cs) (pool_tasks n c) gens sched"
  from imap_unordered_pool_tasks [OF ceil_div_pos [OF n c], of "finder cs" gens sched] c run
  have bl: "best_loop ?items (int (length cs) * int (length cs) + 1, None) = Inr r"
    by (simp add: find_best_settlement_def)
  from pool_run_nonempty [OF valid pool_tasks_nonempty(1,2) [OF n c]]
  have "?items \<noteq> []" by simp
  then obtain x where x: "x \<in> set ?items" by (cases ?items) auto
  from best_loop_no_error [OF bl x] obtain s0 where s0: "x = Inr s0" by blast
  from x s0 have "Inr s0 \<in> set ?items" by simp
  from pool_run_results [OF this] obtain i g where "fst (finder cs i g) = Inr s0" by blast
  from bound [OF this] have le: "settlement_cost s0 \<le> int (length cs) * int (length cs)" .
  from best_loop_result [OF bl] show ?thesis
  proof
    assume "r = None \<and> (\<forall>s. Inr s \<in> set ?items \<longrightarrow>
        int (length cs) * int (length cs) + 1 \<le> settlement_cost s)"
    with x s0 le show ?thesis by force
  next
    assume "\<exists>k s. k < length ?items \<and> ?items ! k = Inr s \<and> r = Some s \<and>
        settlement_cost s < int (length cs) * int (length cs) + 1 \<and>
        (\<forall>j s'. j < length ?items \<and> ?items ! j = Inr s' \<longrightarrow> settlement_cost s \<le> settlement_cost s') \<and>
        (\<forall>j s'. j < k \<and> ?items ! j = Inr s' \<longrightarrow> settlement_cost s < settlement_cost s')"
    then show ?thesis by blast
  qed
qed

text \<open>The search raises as soon as one trial raises.\<close>

lemma find_best_all_returned:
  assumes "find_best_settlement finder cs n c gens sched = Inr r"
    and "1 \<le> n"
  shows "\<forall>x\<in>set (pool_run (finder cs) (pool_tasks n c) gens sched). \<exists>s. x = Inr s"
proof -
  from assms(1) obtain items where c: "0 < c"
    and im: "imap_unordered (finder cs) n (ceil_div n (int c)) gens sched = Inr items"
    and bl: "best_loop items (int (length cs) * int (length cs) + 1, None) = Inr r"
    by (rule find_best_items)
  from im imap_unordered_pool_tasks [OF ceil_div_pos [OF assms(2) c], of "finder cs" gens sched]
  have "items = pool_run (finder cs) (pool_tasks n c) gens sched" by simp
  with best_loop_no_error [OF bl] show ?thesis by blast
qed

subsection \<open>The example solvers meet what is asked of them\<close>

lemma ex_arcs_2x2:
  "\<exists>w0 w1 w2 w3. fst (or_arcs randint (enumerate 0 [-1, -3, 1, 3]) (enumerate 0 [-1, -3, 1, 3]) g) =
     [\<lparr>tail = 2, head = 0, capacity = 1, unit_cost = w0\<rparr>,
      \<lparr>tail = 2, head = 1, capacity = 1, unit_cost = w1\<rparr>,
      \<lparr>tail = 3, head = 0, capacity = 1, unit_cost = w2\<rparr>,
      \<lparr>tail = 3, head = 1, capacity = 3, unit_cost = w3\<rparr>]"
  by (simp split: prod.splits)

lemma ex_solve_sound_2x2:
  "or_sound ex_solve
     (fst (or_arcs randint (enumerate 0 [-1, -3, 1, 3]) (enumerate 0 [-1, -3, 1, 3]) g))
     [-1, -3, 1, 3]"
proof -
  from ex_arcs_2x2 [of randint g] obtain w0 w1 w2 w3 where
    a: "fst (or_arcs randint (enumerate 0 [-1, -3, 1, 3]) (enumerate 0 [-1, -3, 1, 3]) g) =
     [\<lparr>tail = 2, head = 0, capacity = 1, unit_cost = w0\<rparr>,
      \<lparr>tail = 2, head = 1, capacity = 1, unit_cost = w1\<rparr>,
      \<lparr>tail = 3, head = 0, capacity = 1, unit_cost = w2\<rparr>,
      \<lparr>tail = 3, head = 1, capacity = 3, unit_cost = w3\<rparr>]" by blast
  show ?thesis
    unfolding a
    by (simp add: or_sound_def ex_solve_def or_feasible_def out_flow_def in_flow_def Let_def
        upt_rec)
qed

lemma or_finder_empty:
  "fst (solve [] []) = OPTIMAL \<Longrightarrow> fst (find_settlement_or solve randint [] trial g) = Inr []"
  by (cases "solve [] []") (simp add: find_settlement_or_def)

lemma nx_finder_empty:
  "max_flow_min_cost [] 0 1 = Inr fd \<Longrightarrow>
   fst (find_settlement_nx max_flow_min_cost randint [] trial g) = Inr []"
  by (simp add: find_settlement_nx_def nx_graph_def)

lemma best_loop_all_empty:
  assumes ne: "items \<noteq> []" and all: "\<And>x. x \<in> set items \<Longrightarrow> x = Inr []"
  shows "best_loop items (1, None) = Inr (Some [])"
proof -
  from best_loop_returns [of items 1 None] all obtain r
    where r: "best_loop items (1, None) = Inr r" by blast
  from ne obtain x where x: "x \<in> set items" by (cases items) auto
  with all have e: "Inr [] \<in> set items" by auto
  from best_loop_result [OF r] have "r = Some []"
  proof
    assume "r = None \<and> (\<forall>s. Inr s \<in> set items \<longrightarrow> 1 \<le> settlement_cost s)"
    with e have "1 \<le> settlement_cost []" by blast
    then show ?thesis by (simp add: settlement_cost_def)
  next
    assume "\<exists>k s. k < length items \<and> items ! k = Inr s \<and> r = Some s \<and> settlement_cost s < 1 \<and>
        (\<forall>j s'. j < length items \<and> items ! j = Inr s' \<longrightarrow> settlement_cost s \<le> settlement_cost s') \<and>
        (\<forall>j s'. j < k \<and> items ! j = Inr s' \<longrightarrow> settlement_cost s < settlement_cost s')"
    then obtain k s where k: "k < length items" "items ! k = Inr s" "r = Some s" by blast
    from k(1) have "items ! k \<in> set items" by simp
    from all [OF this] k(2,3) show ?thesis by simp
  qed
  with r show ?thesis by simp
qed




lemma ex_nx_graph_1x1:
  "\<exists>w g'. nx_graph randint [- d, c] g =
     (if d > 0 \<and> c > 0 then
        [\<lparr>e_from = 2, e_to = 0, e_capacity = d, e_weight = None\<rparr>,
         \<lparr>e_from = 1, e_to = 3, e_capacity = c, e_weight = None\<rparr>,
         \<lparr>e_from = 0, e_to = 1, e_capacity = min d c, e_weight = Some w\<rparr>]
      else fst (nx_graph randint [- d, c] g), g')"
  by (auto simp: nx_graph_def split: prod.splits)

lemma ex_max_flow_sound_1x1:
  assumes "0 < d" and "0 < c"
  shows "nx_sound ex_max_flow_min_cost (fst (nx_graph randint [- d, c] g)) 2 3"
proof -
  from ex_nx_graph_1x1 [of randint d c g] assms obtain w g' where
    G: "nx_graph randint [- d, c] g =
     ([\<lparr>e_from = 2, e_to = 0, e_capacity = d, e_weight = None\<rparr>,
       \<lparr>e_from = 1, e_to = 3, e_capacity = c, e_weight = None\<rparr>,
       \<lparr>e_from = 0, e_to = 1, e_capacity = min d c, e_weight = Some w\<rparr>], g')"
    by auto
  let ?graph = "[\<lparr>e_from = 2, e_to = 0, e_capacity = d, e_weight = None\<rparr>,
       \<lparr>e_from = 1, e_to = 3, e_capacity = c, e_weight = None\<rparr>,
       \<lparr>e_from = 0, e_to = 1, e_capacity = min d c, e_weight = Some w\<rparr>]"
  let ?fd = "[(2, [(0, min d c)]), (0, [(1, min d c)]), (1, [(3, min d c)]), (3, [])]"
  have fd: "ex_max_flow_min_cost ?graph 2 3 = Inr ?fd"
    by (simp add: ex_max_flow_min_cost_def Let_def)
  have shape: "fd_shape ?graph ?fd"
    by (simp add: fd_shape_def nx_nodes_def)
  have ok: "nx_flow_ok ?graph 2 3 (fd_flow ?fd)"
    using assms by (simp add: nx_flow_ok_def nx_nodes_def nx_in_def nx_out_def fd_flow_def)
  have val: "nx_value ?graph 2 (fd_flow ?fd) = min d c"
    by (simp add: nx_value_def nx_in_def nx_out_def fd_flow_def)
  have pp: "payers [- d, c] = [0]" "payees [- d, c] = [1]"
    using assms by (simp_all add: payers_def payees_def upt_rec)
  have "nx_value ?graph 2 f' \<le> min d c" if f': "nx_flow_ok ?graph 2 3 f'" for f'
  proof -
    from f' have "nx_flow_ok ?graph (length [- d, c]) (length [- d, c] + 1) f'"
      by (simp add: numeral_2_eq_2 numeral_3_eq_3)
    note iff = this [unfolded nx_flow_ok_iff [OF G] pp]
    from iff have "f' 2 0 = f' 0 1" "f' 0 1 \<le> min d c"
      by (simp_all add: numeral_2_eq_2)
    moreover have "nx_value ?graph 2 f' = f' 2 0"
      by (simp add: nx_value_def nx_in_def nx_out_def)
    ultimately show ?thesis by simp
  qed
  with ok val have "nx_max_flow ?graph 2 3 (fd_flow ?fd)"
    by (simp add: nx_max_flow_def)
  with shape fd G show ?thesis by (simp add: nx_sound_def)
qed

subsection \<open>An unbalanced ledger and the OR-tools backend\<close>

lemma sum_list_single_rev:
  fixes X :: "'a \<Rightarrow> int"
  shows "distinct xs \<Longrightarrow> (\<Sum>x\<leftarrow>xs. if k = x then X x else 0) = (if k \<in> set xs then X k else 0)"
  by (induction xs) auto

lemma or_feasible_balanced:
  assumes arcs: "or_arcs rnd (enumerate 0 cs) (enumerate 0 cs) g = (arcs, g')"
    and feas: "or_feasible arcs cs flow"
  shows "sum_list cs = 0"
proof -
  let ?ks = "[0..<length arcs]" and ?vs = "[0..<length cs]"
  from feas have cons: "\<And>v. v < length cs \<Longrightarrow> out_flow arcs flow v - in_flow arcs flow v = cs ! v"
    by (auto simp: or_feasible_def list_all_iff)
  have mem: "\<And>k. k < length arcs \<Longrightarrow> tail (arcs ! k) < length cs \<and> head (arcs ! k) < length cs"
    using or_arcs_members [OF arcs] by force
  have out: "(\<Sum>v\<leftarrow>?vs. out_flow arcs flow v) = (\<Sum>k\<leftarrow>?ks. flow k)"
  proof -
    have "(\<Sum>v\<leftarrow>?vs. out_flow arcs flow v) =
        (\<Sum>k\<leftarrow>?ks. \<Sum>v\<leftarrow>?vs. if tail (arcs ! k) = v then flow k else 0)"
      unfolding out_flow_def by (rule sum_list_swap)
    also have "\<dots> = (\<Sum>k\<leftarrow>?ks. flow k)"
      by (rule sum_list_map_eqI) (use mem in \<open>simp add: sum_list_single_rev\<close>)
    finally show ?thesis .
  qed
  have "in": "(\<Sum>v\<leftarrow>?vs. in_flow arcs flow v) = (\<Sum>k\<leftarrow>?ks. flow k)"
  proof -
    have "(\<Sum>v\<leftarrow>?vs. in_flow arcs flow v) =
        (\<Sum>k\<leftarrow>?ks. \<Sum>v\<leftarrow>?vs. if head (arcs ! k) = v then flow k else 0)"
      unfolding in_flow_def by (rule sum_list_swap)
    also have "\<dots> = (\<Sum>k\<leftarrow>?ks. flow k)"
      by (rule sum_list_map_eqI) (use mem in \<open>simp add: sum_list_single_rev\<close>)
    finally show ?thesis .
  qed
  have "sum_list cs = (\<Sum>v\<leftarrow>?vs. cs ! v)" by (simp add: map_nth)
  also have "\<dots> = (\<Sum>v\<leftarrow>?vs. out_flow arcs flow v - in_flow arcs flow v)"
    by (rule sum_list_map_eqI) (simp add: cons)
  also have "\<dots> = 0"
    by (simp add: sum_list_subtractf out "in")
  finally show ?thesis .
qed

text \<open>
  On an unbalanced ledger no flow is feasible, so a solver that reports \<open>OPTIMAL\<close> only
  with a feasible flow reports something else, and the assertion of the OR-tools backend
  fails.
\<close>

lemma or_unbalanced_raises:
  assumes "sum_list cs \<noteq> 0"
    and "or_sound solve (fst (or_arcs rnd (enumerate 0 cs) (enumerate 0 cs) g)) cs"
  shows "\<exists>st. fst (find_settlement_or solve rnd cs trial g) = Inl (AssertionError st)"
proof -
  obtain arcs g' where arcs: "or_arcs rnd (enumerate 0 cs) (enumerate 0 cs) g = (arcs, g')"
    by (cases "or_arcs rnd (enumerate 0 cs) (enumerate 0 cs) g")
  obtain st flow where sol: "solve arcs cs = (st, flow)" by (cases "solve arcs cs")
  have "st \<noteq> OPTIMAL"
  proof
    assume "st = OPTIMAL"
    with assms(2) arcs sol have "or_feasible arcs cs flow" by (simp add: or_sound_def)
    from or_feasible_balanced [OF arcs this] assms(1) show False by simp
  qed
  with arcs sol show ?thesis by (simp add: find_settlement_or_def)
qed

text \<open>The schedules of the example runs are schedules of their pools.\<close>

lemma ex_schedules_valid:
  "valid_schedule (length (pool_tasks 2 1)) 1 [(0, 0)]"
  "valid_schedule (length (pool_tasks 2 2)) 2 [(0, 0), (1, 1)]"
  "valid_schedule (length (pool_tasks 2 2)) 2 [(1, 1), (0, 0)]"
  "valid_schedule (length (pool_tasks 2 2)) 2 [(0, 0), (1, 0)]"
  "valid_schedule (length (pool_tasks 1 1)) 1 [(0, 0)]"
  by code_simp+

subsection \<open>The OR-tools backend returns on a balanced ledger\<close>

lemma or_arcs_sum:
  fixes h :: "nat \<Rightarrow> nat \<Rightarrow> int"
  assumes "or_arcs rnd (enumerate 0 cs) (enumerate 0 cs) g = (arcs, g')"
  shows "(\<Sum>k\<leftarrow>[0..<length arcs]. h (tail (arcs ! k)) (head (arcs ! k))) =
         (\<Sum>c\<leftarrow>payees cs. \<Sum>d\<leftarrow>payers cs. h c d)"
proof -
  have "(\<Sum>k\<leftarrow>[0..<length arcs]. h (tail (arcs ! k)) (head (arcs ! k))) =
        sum_list (map (\<lambda>a. h (tail a) (head a)) (map (\<lambda>k. arcs ! k) [0..<length arcs]))"
    by (simp add: comp_def)
  also have "\<dots> = (\<Sum>a\<leftarrow>arcs. h (tail a) (head a))"
    by (simp only: map_nth)
  also have "\<dots> = (\<Sum>(a, b, c)\<leftarrow>map (\<lambda>a. (tail a, head a, capacity a)) arcs. h a b)"
    by (simp add: comp_def)
  also have "\<dots> = (\<Sum>c\<leftarrow>payees cs. \<Sum>d\<leftarrow>payers cs. h c d)"
    unfolding or_arcs_pairs [OF assms]
    by (simp add: sum_list_concat_map comp_def)
  finally show ?thesis .
qed

lemma or_feasible_exists:
  assumes arcs: "or_arcs rnd (enumerate 0 cs) (enumerate 0 cs) g = (arcs, g')"
    and bal: "sum_list cs = 0"
  shows "\<exists>flow. or_feasible arcs cs flow"
proof -
  have "\<exists>x. (\<forall>d\<in>set (payers cs). \<forall>c\<in>set (payees cs). 0 \<le> x d c) \<and>
             (\<forall>d\<in>set (payers cs). (\<Sum>c\<leftarrow>payees cs. x d c) = - (cs ! d)) \<and>
             (\<forall>c\<in>set (payees cs). (\<Sum>d\<leftarrow>payers cs. x d c) = cs ! c)"
    by (rule transport_exists) (auto simp: payers_iff payees_iff payers_total [OF bal])
  then obtain x where x: "\<forall>d\<in>set (payers cs). \<forall>c\<in>set (payees cs). 0 \<le> x d c"
    "\<forall>d\<in>set (payers cs). (\<Sum>c\<leftarrow>payees cs. x d c) = - (cs ! d)"
    "\<forall>c\<in>set (payees cs). (\<Sum>d\<leftarrow>payers cs. x d c) = cs ! c"
    by blast
  define flow where "flow = (\<lambda>k. x (head (arcs ! k)) (tail (arcs ! k)))"
  have up: "x d c \<le> min (cs ! c) (- (cs ! d))"
    if d: "d \<in> set (payers cs)" and c: "c \<in> set (payees cs)" for d c
  proof -
    have "x d c \<le> (\<Sum>c\<leftarrow>payees cs. x d c)"
      by (rule sum_list_member_le) (use x(1) d c in auto)
    moreover have "x d c \<le> (\<Sum>d\<leftarrow>payers cs. x d c)"
      by (rule sum_list_member_le [where h = "\<lambda>d. x d c"]) (use x(1) d c in auto)
    ultimately show ?thesis using x(2,3) d c by auto
  qed
  have caps: "0 \<le> flow k \<and> flow k \<le> capacity (arcs ! k)" if k: "k < length arcs" for k
  proof -
    from or_arcs_members [OF arcs, of "arcs ! k"] k
    have m: "tail (arcs ! k) \<in> set (payees cs)" "head (arcs ! k) \<in> set (payers cs)"
      "capacity (arcs ! k) = min (cs ! tail (arcs ! k)) (- (cs ! head (arcs ! k)))"
      by (simp_all add: payees_iff payers_iff)
    from x(1) up m show ?thesis by (simp add: flow_def)
  qed
  have out: "out_flow arcs flow v = (\<Sum>c\<leftarrow>payees cs. \<Sum>d\<leftarrow>payers cs. if c = v then x d c else 0)" for v
    unfolding out_flow_def flow_def
    using or_arcs_sum [OF arcs, of "\<lambda>c d. if c = v then x d c else 0"] by simp
  have "in": "in_flow arcs flow v = (\<Sum>c\<leftarrow>payees cs. \<Sum>d\<leftarrow>payers cs. if d = v then x d c else 0)" for v
    unfolding in_flow_def flow_def
    using or_arcs_sum [OF arcs, of "\<lambda>c d. if d = v then x d c else 0"] by simp
  have out_val: "out_flow arcs flow v = (if v \<in> set (payees cs) then cs ! v else 0)" for v
  proof -
    have "out_flow arcs flow v = (\<Sum>c\<leftarrow>payees cs. if c = v then (\<Sum>d\<leftarrow>payers cs. x d c) else 0)"
      unfolding out by (rule sum_list_map_eqI) simp
    also have "\<dots> = (if v \<in> set (payees cs) then (\<Sum>d\<leftarrow>payers cs. x d v) else 0)"
      by (simp add: sum_list_single)
    finally show ?thesis using x(3) by simp
  qed
  have in_val: "in_flow arcs flow v = (if v \<in> set (payers cs) then - (cs ! v) else 0)" for v
  proof -
    have "in_flow arcs flow v = (\<Sum>d\<leftarrow>payers cs. \<Sum>c\<leftarrow>payees cs. if d = v then x d c else 0)"
      unfolding "in" by (rule sum_list_swap)
    also have "\<dots> = (\<Sum>d\<leftarrow>payers cs. if d = v then (\<Sum>c\<leftarrow>payees cs. x d c) else 0)"
      by (rule sum_list_map_eqI) simp
    also have "\<dots> = (if v \<in> set (payers cs) then (\<Sum>c\<leftarrow>payees cs. x v c) else 0)"
      by (simp add: sum_list_single)
    finally show ?thesis using x(2) by simp
  qed
  have cons: "out_flow arcs flow v - in_flow arcs flow v = cs ! v" if "v < length cs" for v
    using that unfolding out_val in_val by (auto simp: payees_iff payers_iff)
  from caps cons have "or_feasible arcs cs flow"
    by (simp add: or_feasible_def list_all_iff)
  then show ?thesis by blast
qed

lemma or_finder_returns:
  assumes bal: "sum_list cs = 0"
    and complete: "or_complete solve (fst (or_arcs rnd (enumerate 0 cs) (enumerate 0 cs) g)) cs"
  shows "\<exists>s. fst (find_settlement_or solve rnd cs trial g) = Inr s"
proof -
  obtain arcs g' where arcs: "or_arcs rnd (enumerate 0 cs) (enumerate 0 cs) g = (arcs, g')"
    by (cases "or_arcs rnd (enumerate 0 cs) (enumerate 0 cs) g")
  obtain st flow where sol: "solve arcs cs = (st, flow)" by (cases "solve arcs cs")
  from or_feasible_exists [OF arcs bal] complete arcs sol have "st = OPTIMAL"
    by (simp add: or_complete_def)
  with arcs sol show ?thesis by (simp add: find_settlement_or_def)
qed

lemma valid_settlementI:
  assumes "\<And>k p a. (k, p, a) \<in> set (entries s) \<Longrightarrow>
      k < length cs \<and> p < length cs \<and> cs ! k > 0 \<and> cs ! p < 0 \<and> a > 0"
    and "zeroes cs s"
  shows "valid_settlement cs s"
  using assms by (auto simp: valid_settlement_def list_all_iff)

lemma mapstar_errors:
  "mapstar func is g = (Inl e, g') \<Longrightarrow> \<exists>i g0. fst (func i g0) = Inl e"
proof (induction "is" arbitrary: g g')
  case Nil
  then show ?case by simp
next
  case (Cons i "is")
  obtain x g1 where f: "func i g = (x, g1)" by (cases "func i g")
  show ?case
  proof (cases x)
    case (Inl e0)
    with Cons.prems f have "e0 = e" by simp
    with f Inl have "fst (func i g) = Inl e" by simp
    then show ?thesis by blast
  next
    case (Inr r)
    obtain y g2 where m: "mapstar func is g1 = (y, g2)" by (cases "mapstar func is g1")
    with Cons.prems f Inr have "y = Inl e" by (cases y) auto
    with m Cons.IH show ?thesis by blast
  qed
qed

lemma pool_run_errors:
  "Inl e \<in> set (pool_run func tasks gens sched) \<Longrightarrow> \<exists>i g. fst (func i g) = Inl e"
proof (induction sched arbitrary: gens)
  case Nil
  then show ?case by simp
next
  case (Cons bw sched)
  obtain b w where bw: "bw = (b, w)" by (cases bw)
  show ?case
  proof (cases "b < length tasks")
    case False
    with Cons bw show ?thesis by simp
  next
    case True
    obtain y g' where m: "mapstar func (tasks ! b) (gens w) = (y, g')"
      by (cases "mapstar func (tasks ! b) (gens w)")
    show ?thesis
    proof (cases y)
      case (Inl e0)
      with Cons.prems bw True m
      have "e = e0 \<or> Inl e \<in> set (pool_run func tasks (gens(w := g')) sched)" by auto
      then show ?thesis
      proof
        assume "e = e0"
        with m Inl mapstar_errors [of func "tasks ! b" "gens w" e g'] show ?thesis by simp
      next
        assume "Inl e \<in> set (pool_run func tasks (gens(w := g')) sched)"
        from Cons.IH [OF this] show ?thesis .
      qed
    next
      case (Inr rs)
      with Cons.prems bw True m
      have "Inl e \<in> set (pool_run func tasks (gens(w := g')) sched)" by auto
      from Cons.IH [OF this] show ?thesis .
    qed
  qed
qed

text \<open>
  With the OR-tools backend, a search of at least one trial on an unbalanced ledger ends
  in the failed assertion of the first trial whose result the pool delivers.
\<close>

lemma or_search_unbalanced_raises:
  assumes unb: "sum_list cs \<noteq> 0"
    and sound: "\<And>g. or_sound solve (fst (or_arcs rnd (enumerate 0 cs) (enumerate 0 cs) g)) cs"
    and n: "1 \<le> n" and c: "0 < c"
    and valid: "valid_schedule (length (pool_tasks n c)) c sched"
  shows "\<exists>st. find_best_settlement (find_settlement_or solve rnd) cs n c gens sched
           = Inl (AssertionError st)"
proof -
  let ?f = "find_settlement_or solve rnd cs"
  let ?items = "pool_run ?f (pool_tasks n c) gens sched"
  have trial: "\<exists>st. fst (?f i g) = Inl (AssertionError st)" for i g
    by (rule or_unbalanced_raises [OF unb sound])
  from pool_run_nonempty [OF valid pool_tasks_nonempty(1,2) [OF n c]]
  obtain x rest where items: "?items = x # rest" by (cases ?items) auto
  then have x: "x \<in> set ?items" by simp
  have "\<exists>st. x = Inl (AssertionError st)"
  proof (cases x)
    case (Inl e)
    with x pool_run_errors [of e ?f] obtain i g where "fst (?f i g) = Inl e" by blast
    with trial [of i g] Inl show ?thesis by auto
  next
    case (Inr r)
    with x pool_run_results [of r ?f] obtain i g where "fst (?f i g) = Inr r" by blast
    with trial [of i g] show ?thesis by auto
  qed
  then obtain st where "x = Inl (AssertionError st)" by blast
  with items have "best_loop ?items (int (length cs) * int (length cs) + 1, None)
      = Inl (AssertionError st)" by simp
  with imap_unordered_pool_tasks [OF ceil_div_pos [OF n c], of ?f gens sched] c
  show ?thesis by (simp add: find_best_settlement_def)
qed

subsection \<open>The search on a balanced ledger\<close>

text \<open>
  On a balanced ledger a search of at least one trial returns, and what it returns is a
  settlement that meets the contract, given solvers that answer every trial and keep
  their promises in it. (networkx answers when the ledger has a payer and a payee; on a
  ledger of zeros it raises, see \<open>nx_search_raises\<close> below.)
\<close>

lemma balanced_search_returns:
  assumes bal: "sum_list cs = 0" and n: "1 \<le> n" and c: "0 < c"
    and valid: "valid_schedule (length (pool_tasks n c)) c sched"
    and backend:
      "(finder = find_settlement_or solve rnd \<and>
          (\<forall>g. or_sound solve (fst (or_arcs rnd (enumerate 0 cs) (enumerate 0 cs) g)) cs \<and>
               or_complete solve (fst (or_arcs rnd (enumerate 0 cs) (enumerate 0 cs) g)) cs)) \<or>
       (finder = find_settlement_nx mfmc rnd \<and>
          (\<forall>g. nx_sound mfmc (fst (nx_graph rnd cs g)) (length cs) (length cs + 1) \<and>
               nx_returns mfmc (fst (nx_graph rnd cs g)) (length cs) (length cs + 1)))"
  shows "\<exists>s. find_best_settlement finder cs n c gens sched = Inr (Some s) \<and>
             valid_settlement cs s"
proof -
  have trial: "\<exists>s. fst (finder cs i g) = Inr s" for i g
    using backend
  proof (elim disjE conjE)
    assume "finder = find_settlement_or solve rnd"
      and "\<forall>g. or_sound solve (fst (or_arcs rnd (enumerate 0 cs) (enumerate 0 cs) g)) cs \<and>
               or_complete solve (fst (or_arcs rnd (enumerate 0 cs) (enumerate 0 cs) g)) cs"
    with or_finder_returns [OF bal, of solve rnd g i] show ?thesis by simp
  next
    assume f: "finder = find_settlement_nx mfmc rnd"
      and h: "\<forall>g. nx_sound mfmc (fst (nx_graph rnd cs g)) (length cs) (length cs + 1) \<and>
               nx_returns mfmc (fst (nx_graph rnd cs g)) (length cs) (length cs + 1)"
    obtain graph g' where G: "nx_graph rnd cs g = (graph, g')" by (cases "nx_graph rnd cs g")
    from h have hs: "nx_sound mfmc (fst (nx_graph rnd cs g)) (length cs) (length cs + 1)"
      and hr: "nx_returns mfmc (fst (nx_graph rnd cs g)) (length cs) (length cs + 1)"
      by blast+
    from hr G obtain fd where fd: "mfmc graph (length cs) (length cs + 1) = Inr fd"
      by (auto simp: nx_returns_def)
    from hs G fd have "fd_shape graph fd" by (simp add: nx_sound_def)
    from nx_finder_returns [where mfmc = mfmc, OF G fd this, of i] f show ?thesis by simp
  qed
  have good: "valid_settlement cs s" if r: "fst (finder cs i g) = Inr s" for i g s
    using backend
  proof (elim disjE conjE)
    assume f: "finder = find_settlement_or solve rnd"
      and h: "\<forall>g. or_sound solve (fst (or_arcs rnd (enumerate 0 cs) (enumerate 0 cs) g)) cs \<and>
               or_complete solve (fst (or_arcs rnd (enumerate 0 cs) (enumerate 0 cs) g)) cs"
    from r f have r': "fst (find_settlement_or solve rnd cs i g) = Inr s" by simp
    from h have os: "or_sound solve (fst (or_arcs rnd (enumerate 0 cs) (enumerate 0 cs) g)) cs"
      by simp
    show ?thesis
    proof (rule valid_settlementI)
      fix k p a assume m: "(k, p, a) \<in> set (entries s)"
      from or_finder_members [OF r' m] or_positive [OF r' m]
      show "k < length cs \<and> p < length cs \<and> cs ! k > 0 \<and> cs ! p < 0 \<and> a > 0" by simp
    next
      from or_finder_zeroes [OF r' os] show "zeroes cs s" .
    qed
  next
    assume f: "finder = find_settlement_nx mfmc rnd"
      and h: "\<forall>g. nx_sound mfmc (fst (nx_graph rnd cs g)) (length cs) (length cs + 1) \<and>
               nx_returns mfmc (fst (nx_graph rnd cs g)) (length cs) (length cs + 1)"
    from r f have r': "fst (find_settlement_nx mfmc rnd cs i g) = Inr s" by simp
    from h have ns: "nx_sound mfmc (fst (nx_graph rnd cs g)) (length cs) (length cs + 1)"
      by simp
    show ?thesis
    proof (rule valid_settlementI)
      fix k p a assume m: "(k, p, a) \<in> set (entries s)"
      from nx_finder_members [OF r' ns m] nx_positive [OF r' m]
      show "k < length cs \<and> p < length cs \<and> cs ! k > 0 \<and> cs ! p < 0 \<and> a > 0" by simp
    next
      from nx_finder_zeroes [OF r' ns bal] show "zeroes cs s" .
    qed
  qed
  have bound: "settlement_cost s \<le> int (length cs) * int (length cs)"
    if r: "fst (finder cs i g) = Inr s" for i g s
    using backend
  proof (elim disjE conjE)
    assume "finder = find_settlement_or solve rnd"
    with r or_finder_cost [of solve rnd cs i g s] show ?thesis by simp
  next
    assume f: "finder = find_settlement_nx mfmc rnd"
      and h: "\<forall>g. nx_sound mfmc (fst (nx_graph rnd cs g)) (length cs) (length cs + 1) \<and>
               nx_returns mfmc (fst (nx_graph rnd cs g)) (length cs) (length cs + 1)"
    from h have ns: "nx_sound mfmc (fst (nx_graph rnd cs g)) (length cs) (length cs + 1)"
      by simp
    from r f nx_finder_cost [OF _ ns, of i s] show ?thesis by simp
  qed
  let ?items = "pool_run (finder cs) (pool_tasks n c) gens sched"
  have "\<And>x. x \<in> set ?items \<Longrightarrow> \<exists>s. x = Inr s"
    by (rule pool_run_all_right [OF trial])
  from best_loop_returns [OF this, of _ "int (length cs) * int (length cs) + 1" None]
  obtain r where bl: "best_loop ?items (int (length cs) * int (length cs) + 1, None) = Inr r"
    by blast
  with imap_unordered_pool_tasks [OF ceil_div_pos [OF n c], of "finder cs" gens sched] c
  have run: "find_best_settlement finder cs n c gens sched = Inr r"
    by (simp add: find_best_settlement_def)
  have "\<exists>s. r = Some s"
    by (rule find_best_some [where finder = finder and cs = cs, OF n c valid _ run])
      (rule bound)
  then obtain s where s: "r = Some s" by blast
  from find_best_from_trial [of finder cs n c gens sched s] run s
  obtain i g where "fst (finder cs i g) = Inr s" by blast
  from good [OF this] run s show ?thesis by blast
qed

subsection \<open>A ledger without a payer or without a payee\<close>

text \<open>
  The source is a node of the networkx graph exactly when the ledger has a payer, the sink
  exactly when it has a payee. A balanced ledger has both or neither, and it has neither
  exactly when every cashout is zero (the ledger without players among them).
\<close>

lemma nx_nodes_source:
  assumes G: "nx_graph rnd cs g = (graph, g')"
  shows "length cs \<in> set (nx_nodes graph) \<longleftrightarrow> payers cs \<noteq> []"
proof -
  let ?T = "set (map (\<lambda>e. (e_from e, e_to e, e_capacity e)) graph)"
  have n: "v \<in> set (nx_nodes graph) \<longleftrightarrow> (\<exists>a b c. (a, b, c) \<in> ?T \<and> (v = a \<or> v = b))" for v
    by (force simp: nx_nodes_def image_iff)
  show ?thesis
    unfolding n nx_graph_triples [OF G]
    by (cases "payers cs") (auto simp: payers_iff payees_iff)
qed

lemma nx_nodes_sink:
  assumes G: "nx_graph rnd cs g = (graph, g')"
  shows "length cs + 1 \<in> set (nx_nodes graph) \<longleftrightarrow> payees cs \<noteq> []"
proof -
  let ?T = "set (map (\<lambda>e. (e_from e, e_to e, e_capacity e)) graph)"
  have n: "v \<in> set (nx_nodes graph) \<longleftrightarrow> (\<exists>a b c. (a, b, c) \<in> ?T \<and> (v = a \<or> v = b))" for v
    by (force simp: nx_nodes_def image_iff)
  show ?thesis
    unfolding n nx_graph_triples [OF G]
    by (cases "payees cs") (auto simp: payers_iff payees_iff)
qed

lemma nx_finder_raises:
  assumes none: "payers cs = [] \<or> payees cs = []"
    and refuses: "nx_refuses mfmc (fst (nx_graph rnd cs g)) (length cs) (length cs + 1)"
  shows "fst (find_settlement_nx mfmc rnd cs trial g) = Inl NetworkXError"
proof -
  obtain graph g' where G: "nx_graph rnd cs g = (graph, g')"
    by (cases "nx_graph rnd cs g")
  from none nx_nodes_source [OF G] nx_nodes_sink [OF G]
  have "length cs \<notin> set (nx_nodes graph) \<or> length cs + 1 \<notin> set (nx_nodes graph)" by blast
  with refuses G have "mfmc graph (length cs) (length cs + 1) = Inl NetworkXError"
    by (simp add: nx_refuses_def)
  with G show ?thesis by (simp add: find_settlement_nx_def)
qed

lemma ex_max_flow_refuses: "nx_refuses ex_max_flow_min_cost graph s t"
  by (auto simp: nx_refuses_def ex_max_flow_min_cost_def nx_nodes_def Let_def
      split: list.splits)

lemma payers_zero_ledger:
  "payers cs = [] \<and> payees cs = [] \<longleftrightarrow> (\<forall>i<length cs. cs ! i = 0)"
proof -
  have "payers cs = [] \<longleftrightarrow> (\<forall>i<length cs. \<not> cs ! i < 0)"
    by (auto simp: payers_def filter_empty_conv)
  moreover have "payees cs = [] \<longleftrightarrow> (\<forall>i<length cs. \<not> cs ! i > 0)"
    by (auto simp: payees_def filter_empty_conv)
  ultimately show ?thesis by (auto simp: not_less) (metis order.antisym)
qed

lemma sum_list_neg:
  fixes f :: "'a \<Rightarrow> int"
  shows "xs \<noteq> [] \<Longrightarrow> (\<And>x. x \<in> set xs \<Longrightarrow> f x < 0) \<Longrightarrow> (\<Sum>x\<leftarrow>xs. f x) < 0"
proof (induction xs)
  case Nil
  then show ?case by simp
next
  case (Cons a xs)
  show ?case
  proof (cases "xs = []")
    case True
    with Cons.prems(2) [of a] show ?thesis by simp
  next
    case False
    from Cons.IH [OF False] Cons.prems(2) have "(\<Sum>x\<leftarrow>xs. f x) < 0" by simp
    with Cons.prems(2) [of a] show ?thesis by simp
  qed
qed

lemma sum_list_pos_ne:
  fixes f :: "'a \<Rightarrow> int"
  shows "xs \<noteq> [] \<Longrightarrow> (\<And>x. x \<in> set xs \<Longrightarrow> 0 < f x) \<Longrightarrow> 0 < (\<Sum>x\<leftarrow>xs. f x)"
proof (induction xs)
  case Nil
  then show ?case by simp
next
  case (Cons a xs)
  show ?case
  proof (cases "xs = []")
    case True
    with Cons.prems(2) [of a] show ?thesis by simp
  next
    case False
    from Cons.IH [OF False] Cons.prems(2) have "0 < (\<Sum>x\<leftarrow>xs. f x)" by simp
    with Cons.prems(2) [of a] show ?thesis by simp
  qed
qed

lemma balanced_payers_payees:
  assumes bal: "sum_list cs = 0"
  shows "payers cs = [] \<longleftrightarrow> payees cs = []"
proof
  assume p: "payers cs = []"
  show "payees cs = []"
  proof (rule ccontr)
    assume ne: "payees cs \<noteq> []"
    have "0 < (\<Sum>c\<leftarrow>payees cs. cs ! c)"
      by (rule sum_list_pos_ne [OF ne]) (simp add: payees_iff)
    with sum_list_payees_payers [of cs] bal p show False by simp
  qed
next
  assume p: "payees cs = []"
  show "payers cs = []"
  proof (rule ccontr)
    assume ne: "payers cs \<noteq> []"
    have "(\<Sum>d\<leftarrow>payers cs. cs ! d) < 0"
      by (rule sum_list_neg [OF ne]) (simp add: payers_iff)
    with sum_list_payees_payers [of cs] bal p show False by simp
  qed
qed

lemma or_feasible_empty: "or_feasible [] [] flow"
  by (simp add: or_feasible_def)

text \<open>
  On such a ledger the OR-tools backend has no arc to build and returns the empty
  settlement, and the networkx backend raises \<open>NetworkXError\<close> in every trial, so the
  search raises it.
\<close>

lemma or_arcs_zero_ledger:
  assumes arcs: "or_arcs rnd (enumerate 0 cs) (enumerate 0 cs) g = (arcs, g')"
    and none: "payers cs = [] \<or> payees cs = []"
  shows "arcs = []"
proof -
  from or_arcs_pairs [OF arcs] none
  have "map (\<lambda>a. (tail a, head a, capacity a)) arcs = []" by auto
  then show ?thesis by simp
qed

lemma or_finder_zero_ledger:
  assumes bal: "sum_list cs = 0"
    and none: "payers cs = [] \<or> payees cs = []"
    and complete: "or_complete solve (fst (or_arcs rnd (enumerate 0 cs) (enumerate 0 cs) g)) cs"
  shows "fst (find_settlement_or solve rnd cs trial g) = Inr []"
proof -
  obtain arcs g' where arcs: "or_arcs rnd (enumerate 0 cs) (enumerate 0 cs) g = (arcs, g')"
    by (cases "or_arcs rnd (enumerate 0 cs) (enumerate 0 cs) g")
  obtain st flow where sol: "solve arcs cs = (st, flow)" by (cases "solve arcs cs")
  from or_finder_returns [OF bal complete, of trial] obtain s
    where s: "fst (find_settlement_or solve rnd cs trial g) = Inr s" by blast
  from s arcs sol have "s = or_extract arcs flow [0..<length arcs] []"
    by (auto simp: find_settlement_or_def split: if_splits)
  with or_arcs_zero_ledger [OF arcs none] s show ?thesis by simp
qed

lemma nx_search_raises:
  assumes none: "payers cs = [] \<or> payees cs = []"
    and refuses: "\<And>g. nx_refuses mfmc (fst (nx_graph rnd cs g)) (length cs) (length cs + 1)"
    and n: "1 \<le> n" and c: "0 < c"
    and valid: "valid_schedule (length (pool_tasks n c)) c sched"
  shows "find_best_settlement (find_settlement_nx mfmc rnd) cs n c gens sched = Inl NetworkXError"
proof -
  let ?f = "find_settlement_nx mfmc rnd cs"
  let ?items = "pool_run ?f (pool_tasks n c) gens sched"
  have trial: "fst (?f i g) = Inl NetworkXError" for i g
    by (rule nx_finder_raises [OF none refuses])
  from pool_run_nonempty [OF valid pool_tasks_nonempty(1,2) [OF n c]]
  obtain x rest where items: "?items = x # rest" by (cases ?items) auto
  then have x: "x \<in> set ?items" by simp
  have "x = Inl NetworkXError"
  proof (cases x)
    case (Inl e)
    with x pool_run_errors [of e ?f] obtain i g where "fst (?f i g) = Inl e" by blast
    with trial [of i g] Inl show ?thesis by auto
  next
    case (Inr r)
    with x pool_run_results [of r ?f] obtain i g where "fst (?f i g) = Inr r" by blast
    with trial [of i g] show ?thesis by auto
  qed
  with items have "best_loop ?items (int (length cs) * int (length cs) + 1, None)
      = Inl NetworkXError" by simp
  with imap_unordered_pool_tasks [OF ceil_div_pos [OF n c], of ?f gens sched] c
  show ?thesis by (simp add: find_best_settlement_def)
qed

text \<open>
  On a balanced ledger with a cashout that is not zero both backends return, and both
  settlements meet the settlement contract, given the solvers keep what the flow
  libraries promise: OR-tools reports \<open>OPTIMAL\<close> exactly when a feasible flow exists,
  and then with one; networkx returns the flow dictionary of a maximum flow when the
  source and the sink are nodes of the graph.
\<close>

lemma nonzero_ledger_nodes:
  assumes bal: "sum_list cs = 0" and nz: "\<exists>i<length cs. cs ! i \<noteq> 0"
    and G: "nx_graph rnd cs g = (graph, g')"
  shows "length cs \<in> set (nx_nodes graph) \<and> length cs + 1 \<in> set (nx_nodes graph)"
proof -
  from nz payers_zero_ledger [of cs] have "payers cs \<noteq> [] \<or> payees cs \<noteq> []" by blast
  with balanced_payers_payees [OF bal] have "payers cs \<noteq> [] \<and> payees cs \<noteq> []" by blast
  with nx_nodes_source [OF G] nx_nodes_sink [OF G] show ?thesis by blast
qed

lemma backends_interchangeable:
  assumes bal: "sum_list cashouts = 0"
    and nz: "\<exists>i<length cashouts. cashouts ! i \<noteq> 0"
    and os: "or_sound solve
               (fst (or_arcs randint (enumerate 0 cashouts) (enumerate 0 cashouts) g)) cashouts"
    and oc: "or_complete solve
               (fst (or_arcs randint (enumerate 0 cashouts) (enumerate 0 cashouts) g)) cashouts"
    and ns: "nx_sound max_flow_min_cost (fst (nx_graph randint cashouts g))
               (length cashouts) (length cashouts + 1)"
    and na: "nx_answers max_flow_min_cost (fst (nx_graph randint cashouts g))
               (length cashouts) (length cashouts + 1)"
  shows "\<exists>s_or s_nx.
           fst (find_settlement_or solve randint cashouts trial g) = Inr s_or \<and>
           fst (find_settlement_nx max_flow_min_cost randint cashouts trial g) = Inr s_nx \<and>
           valid_settlement cashouts s_or \<and> valid_settlement cashouts s_nx"
proof -
  from or_finder_returns [OF bal oc] obtain s_or
    where r1: "fst (find_settlement_or solve randint cashouts trial g) = Inr s_or" by blast
  have v1: "valid_settlement cashouts s_or"
  proof (rule valid_settlementI)
    fix k p a assume m: "(k, p, a) \<in> set (entries s_or)"
    from or_finder_members [OF r1 m] or_positive [OF r1 m]
    show "k < length cashouts \<and> p < length cashouts \<and> cashouts ! k > 0 \<and> cashouts ! p < 0 \<and> a > 0"
      by simp
  next
    from or_finder_zeroes [OF r1 os] show "zeroes cashouts s_or" .
  qed
  obtain graph g' where G: "nx_graph randint cashouts g = (graph, g')"
    by (cases "nx_graph randint cashouts g")
  from nonzero_ledger_nodes [OF bal nz G] na G
  have "nx_returns max_flow_min_cost graph (length cashouts) (length cashouts + 1)"
    by (simp add: nx_answers_def)
  then obtain fd where fd: "max_flow_min_cost graph (length cashouts) (length cashouts + 1) = Inr fd"
    by (auto simp: nx_returns_def)
  from ns G fd have shape: "fd_shape graph fd" by (simp add: nx_sound_def)
  from nx_finder_returns [where mfmc = max_flow_min_cost, OF G fd shape] obtain s_nx
    where r2: "fst (find_settlement_nx max_flow_min_cost randint cashouts trial g) = Inr s_nx"
    by blast
  have v2: "valid_settlement cashouts s_nx"
  proof (rule valid_settlementI)
    fix k p a assume m: "(k, p, a) \<in> set (entries s_nx)"
    from nx_finder_members [OF r2 ns m] nx_positive [OF r2 m]
    show "k < length cashouts \<and> p < length cashouts \<and> cashouts ! k > 0 \<and> cashouts ! p < 0 \<and> a > 0"
      by simp
  next
    from nx_finder_zeroes [OF r2 ns bal] show "zeroes cashouts s_nx" .
  qed
  from r1 r2 v1 v2 show ?thesis by blast
qed


subsection \<open>The seeded generator and the cheapest flow\<close>

text \<open>
  The example generator passes the sixteen values of the seed on unchanged. A search of
  four trials is one task on one processor and two tasks of two trials on two.
\<close>

lemma ex_seed_123_draws: "draws ex_randint 16 ex_seed_123 = (ex_seed_123, [])"
  by code_simp

lemma ex_schedules_valid_4:
  "valid_schedule (length (pool_tasks 4 1)) 1 [(0, 0)]"
  "valid_schedule (length (pool_tasks 4 2)) 2 [(0, 0), (1, 1)]"
  "valid_schedule (length (pool_tasks 4 2)) 2 [(1, 1), (0, 0)]"
  "valid_schedule (length (pool_tasks 4 2)) 2 [(0, 0), (1, 0)]"
  by code_simp+

lemma ex_pool_tasks_4:
  "pool_tasks 4 1 = [[0, 1, 2, 3]]" "pool_tasks 4 2 = [[0, 1], [2, 3]]"
  by code_simp+


text \<open>
  For the ledger \<open>[-1, -3, 1, 3]\<close> the feasible flows are two: the one that sends
  nothing along arc 0 (three payments) and the one that sends one unit along it (two
  payments). \<open>ex_solve\<close> returns the cheaper one.
\<close>

lemma feasible_2x2:
  assumes f: "or_feasible
     [\<lparr>tail = 2, head = 0, capacity = 1, unit_cost = w0\<rparr>,
      \<lparr>tail = 2, head = 1, capacity = 1, unit_cost = w1\<rparr>,
      \<lparr>tail = 3, head = 0, capacity = 1, unit_cost = w2\<rparr>,
      \<lparr>tail = 3, head = 1, capacity = 3, unit_cost = w3\<rparr>] [-1, -3, 1, 3] flow"
  shows "(flow 0 = 0 \<or> flow 0 = 1) \<and> flow 1 = 1 - flow 0 \<and> flow 2 = 1 - flow 0 \<and>
         flow 3 = 2 + flow 0"
proof -
  from f have b: "0 \<le> flow 0" "flow 0 \<le> 1"
    and n2: "flow 0 + flow 1 = 1" and n3: "flow 2 + flow 3 = 3"
    and n0: "flow 0 + flow 2 = 1"
    by (simp_all add: or_feasible_def out_flow_def in_flow_def upt_rec eval_nat_numeral)
  from b n2 n3 n0 show ?thesis by auto
qed

lemma ex_flow_2x2:
  "snd (ex_solve
     [\<lparr>tail = 2, head = 0, capacity = 1, unit_cost = w0\<rparr>,
      \<lparr>tail = 2, head = 1, capacity = 1, unit_cost = w1\<rparr>,
      \<lparr>tail = 3, head = 0, capacity = 1, unit_cost = w2\<rparr>,
      \<lparr>tail = 3, head = 1, capacity = 3, unit_cost = w3\<rparr>] [-1, -3, 1, 3]) =
   (\<lambda>i. if i < 4 then (if w0 + w3 \<le> w1 + w2 then [1, 0, 0, 3] else [0, 1, 1, 2]) ! i else 0)"
  by (auto simp: ex_solve_def Let_def fun_eq_iff)

lemma flow_cost_2x2:
  "flow_cost
     [\<lparr>tail = 2, head = 0, capacity = 1, unit_cost = w0\<rparr>,
      \<lparr>tail = 2, head = 1, capacity = 1, unit_cost = w1\<rparr>,
      \<lparr>tail = 3, head = 0, capacity = 1, unit_cost = w2\<rparr>,
      \<lparr>tail = 3, head = 1, capacity = 3, unit_cost = w3\<rparr>] flow =
   w0 * flow 0 + w1 * flow 1 + w2 * flow 2 + w3 * flow 3"
  by (simp add: flow_cost_def upt_rec eval_nat_numeral)

lemma ex_solve_optimal_2x2:
  "or_optimal ex_solve
     (fst (or_arcs randint (enumerate 0 [-1, -3, 1, 3]) (enumerate 0 [-1, -3, 1, 3]) g))
     [-1, -3, 1, 3]"
proof -
  from ex_arcs_2x2 [of randint g] obtain w0 w1 w2 w3 where
    a: "fst (or_arcs randint (enumerate 0 [-1, -3, 1, 3]) (enumerate 0 [-1, -3, 1, 3]) g) =
     [\<lparr>tail = 2, head = 0, capacity = 1, unit_cost = w0\<rparr>,
      \<lparr>tail = 2, head = 1, capacity = 1, unit_cost = w1\<rparr>,
      \<lparr>tail = 3, head = 0, capacity = 1, unit_cost = w2\<rparr>,
      \<lparr>tail = 3, head = 1, capacity = 3, unit_cost = w3\<rparr>]" by blast
  show ?thesis
    unfolding a or_optimal_def
  proof (intro allI impI)
    fix flow
    assume "or_feasible
     [\<lparr>tail = 2, head = 0, capacity = 1, unit_cost = w0\<rparr>,
      \<lparr>tail = 2, head = 1, capacity = 1, unit_cost = w1\<rparr>,
      \<lparr>tail = 3, head = 0, capacity = 1, unit_cost = w2\<rparr>,
      \<lparr>tail = 3, head = 1, capacity = 3, unit_cost = w3\<rparr>] [-1, -3, 1, 3] flow"
    from feasible_2x2 [OF this]
    have "flow 0 = 0 \<and> flow 1 = 1 \<and> flow 2 = 1 \<and> flow 3 = 2 \<or>
          flow 0 = 1 \<and> flow 1 = 0 \<and> flow 2 = 0 \<and> flow 3 = 3" by auto
    then show "flow_cost
     [\<lparr>tail = 2, head = 0, capacity = 1, unit_cost = w0\<rparr>,
      \<lparr>tail = 2, head = 1, capacity = 1, unit_cost = w1\<rparr>,
      \<lparr>tail = 3, head = 0, capacity = 1, unit_cost = w2\<rparr>,
      \<lparr>tail = 3, head = 1, capacity = 3, unit_cost = w3\<rparr>]
      (snd (ex_solve
     [\<lparr>tail = 2, head = 0, capacity = 1, unit_cost = w0\<rparr>,
      \<lparr>tail = 2, head = 1, capacity = 1, unit_cost = w1\<rparr>,
      \<lparr>tail = 3, head = 0, capacity = 1, unit_cost = w2\<rparr>,
      \<lparr>tail = 3, head = 1, capacity = 3, unit_cost = w3\<rparr>] [-1, -3, 1, 3]))
      \<le> flow_cost
     [\<lparr>tail = 2, head = 0, capacity = 1, unit_cost = w0\<rparr>,
      \<lparr>tail = 2, head = 1, capacity = 1, unit_cost = w1\<rparr>,
      \<lparr>tail = 3, head = 0, capacity = 1, unit_cost = w2\<rparr>,
      \<lparr>tail = 3, head = 1, capacity = 3, unit_cost = w3\<rparr>] flow"
      unfolding flow_cost_2x2 ex_flow_2x2 by auto
  qed
qed

text \<open>
  When the two extreme flows differ in cost, the cheapest flow is unique: any solver that
  returns a feasible flow of least cost makes the trial return the settlement that
  \<open>ex_solve\<close> makes it return.
\<close>

lemma optimal_solver_settlement_2x2:
  assumes arcs: "or_arcs randint (enumerate 0 [-1, -3, 1, 3]) (enumerate 0 [-1, -3, 1, 3]) g
       = (arcs, g')"
    and slope: "unit_cost (arcs ! 0) + unit_cost (arcs ! 3) \<noteq> unit_cost (arcs ! 1) + unit_cost (arcs ! 2)"
    and sound: "or_sound solve arcs [-1, -3, 1, 3]"
    and complete: "or_complete solve arcs [-1, -3, 1, 3]"
    and optimal: "or_optimal solve arcs [-1, -3, 1, 3]"
  shows "find_settlement_or solve randint [-1, -3, 1, 3] trial g =
         find_settlement_or ex_solve randint [-1, -3, 1, 3] trial g"
proof -
  from ex_arcs_2x2 [of randint g] arcs obtain w0 w1 w2 w3 where
    a: "arcs =
     [\<lparr>tail = 2, head = 0, capacity = 1, unit_cost = w0\<rparr>,
      \<lparr>tail = 2, head = 1, capacity = 1, unit_cost = w1\<rparr>,
      \<lparr>tail = 3, head = 0, capacity = 1, unit_cost = w2\<rparr>,
      \<lparr>tail = 3, head = 1, capacity = 3, unit_cost = w3\<rparr>]" by auto
  from slope have ne: "w0 + w3 \<noteq> w1 + w2" by (simp add: a)
  obtain st flow where sol: "solve arcs [-1, -3, 1, 3] = (st, flow)"
    by (cases "solve arcs [-1, -3, 1, 3]")
  have bal: "sum_list [-1, -3, 1, 3 :: int] = 0" by simp
  from or_feasible_exists [OF arcs bal] complete sol have st: "st = OPTIMAL"
    by (simp add: or_complete_def)
  with sound sol have feas: "or_feasible arcs [-1, -3, 1, 3] flow" by (simp add: or_sound_def)
  note F = feasible_2x2 [OF feas [unfolded a]]
  have ex: "ex_solve arcs [-1, -3, 1, 3] = (OPTIMAL, snd (ex_solve arcs [-1, -3, 1, 3]))"
    by (simp add: a ex_solve_def Let_def)
  have fa: "fst (or_arcs randint (enumerate 0 [-1, -3, 1, 3]) (enumerate 0 [-1, -3, 1, 3]) g)
      = arcs"
    by (simp only: arcs fst_conv)
  from ex_solve_sound_2x2 [of randint g, unfolded fa] ex
  have "or_feasible arcs [-1, -3, 1, 3] (snd (ex_solve arcs [-1, -3, 1, 3]))"
    unfolding or_sound_def by (metis fst_conv)
  with optimal sol have "flow_cost arcs flow \<le> flow_cost arcs (snd (ex_solve arcs [-1, -3, 1, 3]))"
    by (simp add: or_optimal_def)
  then have le: "w0 * flow 0 + w1 * flow 1 + w2 * flow 2 + w3 * flow 3 \<le>
      (if w0 + w3 \<le> w1 + w2 then w0 + 3 * w3 else w1 + w2 + 2 * w3)"
    unfolding a flow_cost_2x2 ex_flow_2x2 by (simp split: if_splits)
  have flows: "flow 0 = (if w0 + w3 \<le> w1 + w2 then 1 else 0) \<and>
      flow 1 = 1 - flow 0 \<and> flow 2 = 1 - flow 0 \<and> flow 3 = 2 + flow 0"
    using F le ne by (auto split: if_splits)
  have same: "or_extract arcs flow [0..<length arcs] [] =
      or_extract arcs (snd (ex_solve arcs [-1, -3, 1, 3])) [0..<length arcs] []"
    unfolding a ex_flow_2x2 using flows
    by (auto simp: upt_rec eval_nat_numeral split: if_splits)
  obtain flx where exf: "ex_solve arcs [-1, -3, 1, 3] = (OPTIMAL, flx)"
    using ex by blast
  then have flx: "snd (ex_solve arcs [-1, -3, 1, 3]) = flx" by simp
  have l: "find_settlement_or solve randint [-1, -3, 1, 3] trial g =
      (Inr (or_extract arcs flow [0..<length arcs] []), g')"
    by (simp only: find_settlement_or_def arcs sol st prod.case simp_thms if_False)
  have r: "find_settlement_or ex_solve randint [-1, -3, 1, 3] trial g =
      (Inr (or_extract arcs flx [0..<length arcs] []), g')"
    by (simp only: find_settlement_or_def arcs exf prod.case simp_thms if_False)
  from l r same flx show ?thesis by simp
qed

text \<open>
  The four trials of one process that starts from the seed, then the two tasks of two
  trials each on a process that starts from the seed, and the arcs of the fourth trial
  of the first run with their costs.
\<close>

lemma ex_seed_123_trials:
  "mapstar (find_settlement_or ex_solve ex_randint [-1, -3, 1, 3]) [0, 1, 2, 3] ex_seed_123 =
     (Inr [[(2, [(1, 1)]), (3, [(0, 1), (1, 2)])], [(2, [(1, 1)]), (3, [(0, 1), (1, 2)])],
           [(2, [(1, 1)]), (3, [(0, 1), (1, 2)])], [(2, [(0, 1)]), (3, [(1, 3)])]], [])"
  "fst (mapstar (find_settlement_or ex_solve ex_randint [-1, -3, 1, 3]) [0, 1] ex_seed_123) =
     Inr [[(2, [(1, 1)]), (3, [(0, 1), (1, 2)])], [(2, [(1, 1)]), (3, [(0, 1), (1, 2)])]]"
  "fst (mapstar (find_settlement_or ex_solve ex_randint [-1, -3, 1, 3]) [2, 3] ex_seed_123) =
     Inr [[(2, [(1, 1)]), (3, [(0, 1), (1, 2)])], [(2, [(1, 1)]), (3, [(0, 1), (1, 2)])]]"
  by code_simp+

lemma ex_seed_123_arcs:
  "or_arcs ex_randint (enumerate 0 [-1, -3, 1, 3]) (enumerate 0 [-1, -3, 1, 3]) (drop 12 ex_seed_123)
     = ([\<lparr>tail = 2, head = 0, capacity = 1, unit_cost = 151485118\<rparr>,
         \<lparr>tail = 2, head = 1, capacity = 1, unit_cost = 207570246\<rparr>,
         \<lparr>tail = 3, head = 0, capacity = 1, unit_cost = - 286610876\<rparr>,
         \<lparr>tail = 3, head = 1, capacity = 3, unit_cost = - 268141381\<rparr>], [])"
  by code_simp

text \<open>
  The cost of the flow of two payments minus the cost of the flow of three, for the four
  blocks of four costs of the seed: only the fourth block makes two payments cheaper, and
  no block makes the two flows cost the same.
\<close>

lemma ex_seed_123_slopes:
  "map (\<lambda>k. let ws = take 4 (drop (4 * k) ex_seed_123)
            in ws ! 0 + ws ! 3 - (ws ! 1 + ws ! 2)) [0, 1, 2, 3] =
     [1001706945, 1871513167, 788864786, - 37615633]"
  by code_simp

section \<open>The claims\<close>

text \<open>
  C1. For a ledger whose cashouts sum to zero, the settlement that the search returns
  zeroes the ledger, whichever backend runs the trials: each player with a positive
  cashout receives exactly that cashout and each player with a negative cashout pays
  exactly its absolute value. The OR-tools solver is asked only that \<open>OPTIMAL\<close> comes
  with a feasible flow, and networkx that a flow dictionary it returns is one of a
  maximum flow; the generator state \<open>g\<close> of a trial is arbitrary because the pool decides
  which state a trial meets. That a search of at least one trial does return a settlement
  when the solvers also answer every trial is \<open>balanced_search_returns\<close>.
\<close>

theorem C1_settlement_zeroes_ledger:
  assumes bal: "sum_list cashouts = 0"
    and backend:
      "(settlement_finder = find_settlement_or solve randint \<and>
          (\<forall>g. or_sound solve
                 (fst (or_arcs randint (enumerate 0 cashouts) (enumerate 0 cashouts) g))
                 cashouts)) \<or>
       (settlement_finder = find_settlement_nx max_flow_min_cost randint \<and>
          (\<forall>g. nx_sound max_flow_min_cost (fst (nx_graph randint cashouts g))
                 (length cashouts) (length cashouts + 1)))"
    and run: "find_best_settlement settlement_finder cashouts num_trials cpu_count gens sched
                = Inr (Some s)"
  shows "zeroes cashouts s"
proof -
  from find_best_from_trial [OF run] obtain i g
    where trial: "fst (settlement_finder cashouts i g) = Inr s" by blast
  from backend show ?thesis
  proof (elim disjE conjE)
    assume "settlement_finder = find_settlement_or solve randint"
      and "\<forall>g. or_sound solve
              (fst (or_arcs randint (enumerate 0 cashouts) (enumerate 0 cashouts) g)) cashouts"
    with trial show ?thesis by (auto intro: or_finder_zeroes)
  next
    assume "settlement_finder = find_settlement_nx max_flow_min_cost randint"
      and "\<forall>g. nx_sound max_flow_min_cost (fst (nx_graph randint cashouts g))
              (length cashouts) (length cashouts + 1)"
    with trial bal show ?thesis by (auto intro: nx_finder_zeroes)
  qed
qed

theorem C1_settlement_zeroes_ledger_witness:
  "find_best_settlement (find_settlement_or ex_solve ex_randint) [-1, -3, 1, 3] 2 1 ex_gens
     [(0, 0)] = Inr (Some [(2, [(0, 1)]), (3, [(1, 3)])]) \<and>
   zeroes [-1, -3, 1, 3] [(2, [(0, 1)]), (3, [(1, 3)])]"
proof -
  have bal: "sum_list [-1, -3, 1, 3 :: int] = 0" by simp
  have run: "find_best_settlement (find_settlement_or ex_solve ex_randint) [-1, -3, 1, 3] 2 1
      ex_gens [(0, 0)] = Inr (Some [(2, [(0, 1)]), (3, [(1, 3)])])"
    by code_simp
  have backend:
    "(find_settlement_or ex_solve ex_randint = find_settlement_or ex_solve ex_randint \<and>
        (\<forall>g. or_sound ex_solve
               (fst (or_arcs ex_randint (enumerate 0 [-1, -3, 1, 3])
                      (enumerate 0 [-1, -3, 1, 3]) g))
               [-1, -3, 1, 3])) \<or>
     (find_settlement_or ex_solve ex_randint = find_settlement_nx ex_max_flow_min_cost ex_randint \<and>
        (\<forall>g. nx_sound ex_max_flow_min_cost (fst (nx_graph ex_randint [-1, -3, 1, 3] g))
               (length [-1, -3, 1, 3 :: int]) (length [-1, -3, 1, 3 :: int] + 1)))"
    by (intro disjI1 conjI allI refl ex_solve_sound_2x2)
  from C1_settlement_zeroes_ledger [OF bal backend run] run show ?thesis by simp
qed

text \<open>
  C2. The ledger \<open>[-100, 50]\<close> does not sum to zero. With the networkx backend the search
  raises nothing: \<open>max_flow_min_cost\<close> returns the maximum flow of 50 (the example solver
  returns it, and \<open>ex_max_flow_sound_1x1\<close> shows it is a maximum flow of this graph), and
  the search returns a settlement in which player 0, who owes 100, pays 50. The OR-tools
  backend asserts \<open>status == OPTIMAL\<close> and raises on every unbalanced ledger
  (\<open>or_unbalanced_raises\<close> for one trial, \<open>or_search_unbalanced_raises\<close> for the
  search, which ends in the first failed assertion that the pool delivers); the networkx
  backend has no such check.
\<close>

theorem C2_unbalanced_ledger_networkx:
  "find_best_settlement (find_settlement_nx ex_max_flow_min_cost ex_randint) [-100, 50] 1 1
     ex_gens [(0, 0)] = Inr (Some [(1, [(0, 50)])]) \<and>
   sum_list [-100, 50 :: int] = - 50 \<and>
   paid [(1, [(0, 50)])] 0 = 50 \<and> received [(1, [(0, 50)])] 1 = 50"
  by code_simp

text \<open>
  C3. The claim says that ties between settlements of equal cost are broken by trial
  number, so that the result does not depend on the order in which the workers deliver.
  The loop compares each arriving settlement with the best one so far by \<open>cost < best_cost\<close>
  and sees no trial number: \<open>imap_unordered\<close> yields results in the order of completion.
  In the run below trial 0 runs on worker 0 and trial 1 on worker 1 both times, with the
  same costs; the two settlements have two payments each; only the order of completion
  differs, and so does the settlement returned.
\<close>

theorem C3_tie_break_counterexample:
  "find_best_settlement (find_settlement_or ex_solve ex_randint) [-2, -2, 2, 2] 2 2 ex_gens2
     [(0, 0), (1, 1)] = Inr (Some [(2, [(0, 2)]), (3, [(1, 2)])]) \<and>
   find_best_settlement (find_settlement_or ex_solve ex_randint) [-2, -2, 2, 2] 2 2 ex_gens2
     [(1, 1), (0, 0)] = Inr (Some [(2, [(1, 2)]), (3, [(0, 2)])])"
  by code_simp

text \<open>
  C3, amended. Ties are broken by order of arrival: the settlement returned is the first
  one, in the order in which the pool delivers the results, whose cost is the least of
  all; a later result of equal cost never replaces it. Here \<open>items\<close> is what the iterator
  of the pool yields, in that order.
\<close>

theorem C3_first_arrival_wins:
  assumes "0 < cpu_count"
    and "imap_unordered (settlement_finder cashouts) num_trials
           (ceil_div num_trials (int cpu_count)) gens sched = Inr items"
    and "find_best_settlement settlement_finder cashouts num_trials cpu_count gens sched
           = Inr (Some s)"
  shows "\<exists>k<length items. items ! k = Inr s \<and>
           (\<forall>j<length items. \<forall>s'. items ! j = Inr s' \<longrightarrow> settlement_cost s \<le> settlement_cost s') \<and>
           (\<forall>j<k. \<forall>s'. items ! j = Inr s' \<longrightarrow> settlement_cost s < settlement_cost s')"
proof -
  from find_best_unfold [where finder = settlement_finder and cs = cashouts, OF assms(1,2)]
    assms(3)
  have "best_loop items (int (length cashouts) * int (length cashouts) + 1, None) = Inr (Some s)"
    by simp
  from best_loop_result [OF this] show ?thesis by auto
qed

theorem C3_first_arrival_wins_witness:
  "imap_unordered (find_settlement_or ex_solve ex_randint [-2, -2, 2, 2]) 2
     (ceil_div 2 (int 2)) ex_gens2 [(1, 1), (0, 0)]
     = Inr [Inr [(2, [(1, 2)]), (3, [(0, 2)])], Inr [(2, [(0, 2)]), (3, [(1, 2)])]] \<and>
   (\<exists>k<length [Inr [(2, [(1, 2)]), (3, [(0, 2)])], Inr [(2, [(0, 2)]), (3, [(1, 2)])] :: error + settlement].
      [Inr [(2, [(1, 2)]), (3, [(0, 2)])], Inr [(2, [(0, 2)]), (3, [(1, 2)])]] ! k
        = (Inr [(2, [(1, 2)]), (3, [(0, 2)])] :: error + settlement))"
proof -
  have c: "0 < (2::nat)" by simp
  have im: "imap_unordered (find_settlement_or ex_solve ex_randint [-2, -2, 2, 2]) 2
     (ceil_div 2 (int 2)) ex_gens2 [(1, 1), (0, 0)]
     = Inr [Inr [(2, [(1, 2)]), (3, [(0, 2)])], Inr [(2, [(0, 2)]), (3, [(1, 2)])]]"
    by code_simp
  have run: "find_best_settlement (find_settlement_or ex_solve ex_randint) [-2, -2, 2, 2] 2 2
     ex_gens2 [(1, 1), (0, 0)] = Inr (Some [(2, [(1, 2)]), (3, [(0, 2)])])"
    by code_simp
  from C3_first_arrival_wins [OF c im run] im show ?thesis by blast
qed

text \<open>
  C4. The claim compares, for every \<open>N\<close> and \<open>M\<close> from zero on, the settlement of
  \<open>N + M\<close> trials with the one of the first \<open>N\<close> trials. With \<open>N = 0\<close> and \<open>M = 0\<close>
  the search returns no settlement at all: the chunk size is \<open>ceil(0 / cpu_count) = 0\<close>
  and the pool refuses it.
\<close>

theorem C4_no_trials_counterexample:
  "find_best_settlement (find_settlement_or ex_solve ex_randint) [-1, -3, 1, 3] (0 + 0) 1
     ex_gens [] = Inl ValueError"
  by code_simp

text \<open>
  C4, amended. In a search of \<open>N + M\<close> trials that returns a settlement, the settlement
  costs no more than any of the first \<open>N\<close> results that the pool delivered, and so no
  more than the settlement that the loop holds after these \<open>N\<close> results (which exists
  from \<open>N = 1\<close> on): more trials never make the result dearer.
\<close>

theorem C4_more_trials_never_dearer:
  assumes "0 < cpu_count"
    and "imap_unordered (settlement_finder cashouts) (N + M)
           (ceil_div (N + M) (int cpu_count)) gens sched = Inr items"
    and "find_best_settlement settlement_finder cashouts (N + M) cpu_count gens sched
           = Inr (Some s)"
  shows "(\<forall>t. Inr t \<in> set (take (nat N) items) \<longrightarrow> settlement_cost s \<le> settlement_cost t) \<and>
         (\<forall>t. best_loop (take (nat N) items)
                 (int (length cashouts) * int (length cashouts) + 1, None) = Inr (Some t)
               \<longrightarrow> settlement_cost s \<le> settlement_cost t)"
proof -
  from find_best_unfold [where finder = settlement_finder and cs = cashouts, OF assms(1,2)]
    assms(3)
  have "best_loop items (int (length cashouts) * int (length cashouts) + 1, None) = Inr (Some s)"
    by simp
  from best_loop_result [OF this]
  have least: "\<forall>j s'. j < length items \<and> items ! j = Inr s' \<longrightarrow>
      settlement_cost s \<le> settlement_cost s'"
    by auto
  have all: "settlement_cost s \<le> settlement_cost t" if "Inr t \<in> set items" for t
    using that least by (metis in_set_conv_nth)
  have first: "settlement_cost s \<le> settlement_cost t" if "Inr t \<in> set (take (nat N) items)" for t
    using that all by (meson in_set_takeD)
  have "settlement_cost s \<le> settlement_cost t"
    if t: "best_loop (take (nat N) items)
             (int (length cashouts) * int (length cashouts) + 1, None) = Inr (Some t)" for t
  proof -
    from best_loop_result [OF t] obtain k where "k < length (take (nat N) items)"
      "take (nat N) items ! k = Inr t" by auto
    then have "Inr t \<in> set (take (nat N) items)" by (metis nth_mem)
    with first show ?thesis by blast
  qed
  with first show ?thesis by blast
qed

theorem C4_more_trials_never_dearer_witness:
  "imap_unordered (find_settlement_or ex_solve ex_randint [-1, -3, 1, 3]) (1 + 1)
     (ceil_div (1 + 1) (int 1)) ex_gens [(0, 0)]
     = Inr [Inr [(2, [(1, 1)]), (3, [(0, 1), (1, 2)])], Inr [(2, [(0, 1)]), (3, [(1, 3)])]] \<and>
   Inr [(2, [(1, 1)]), (3, [(0, 1), (1, 2)])] \<in>
     set (take (nat 1) [Inr [(2, [(1, 1)]), (3, [(0, 1), (1, 2)])],
                        Inr [(2, [(0, 1)]), (3, [(1, 3)])] :: error + settlement]) \<and>
   settlement_cost [(2, [(0, 1)]), (3, [(1, 3)])]
     \<le> settlement_cost [(2, [(1, 1)]), (3, [(0, 1), (1, 2)])]"
proof -
  have c: "0 < (1::nat)" by simp
  have im: "imap_unordered (find_settlement_or ex_solve ex_randint [-1, -3, 1, 3]) (1 + 1)
     (ceil_div (1 + 1) (int 1)) ex_gens [(0, 0)]
     = Inr [Inr [(2, [(1, 1)]), (3, [(0, 1), (1, 2)])], Inr [(2, [(0, 1)]), (3, [(1, 3)])]]"
    by code_simp
  have run: "find_best_settlement (find_settlement_or ex_solve ex_randint) [-1, -3, 1, 3] (1 + 1) 1
     ex_gens [(0, 0)] = Inr (Some [(2, [(0, 1)]), (3, [(1, 3)])])"
    by code_simp
  have m: "Inr [(2, [(1, 1)]), (3, [(0, 1), (1, 2)])] \<in>
     set (take (nat 1) [Inr [(2, [(1, 1)]), (3, [(0, 1), (1, 2)])],
                        Inr [(2, [(0, 1)]), (3, [(1, 3)])] :: error + settlement])"
    by simp
  from C4_more_trials_never_dearer [OF c im run] im m show ?thesis by blast
qed

text \<open>
  C5. The ledger \<open>[-1, -3, 1, 3]\<close>, four trials, the OR-tools backend and the seeding
  of the program: every worker process starts from the state that \<open>random.seed(123)\<close>
  leaves (\<open>ex_gens_seeded\<close>), once on a pool of one process and once on a pool of two.
  One process runs the four trials in one task, so the trials draw the four blocks of
  four costs of the seed in turn; the fourth block makes the flow of two payments the
  cheapest, and the search returns a settlement of two payments. Two processes get two
  trials each; when each runs its task, both draw the first two blocks of the seed, every
  trial finds the flow of three payments, and the search returns a settlement of three
  payments, whichever task completes first. When one of the two processes runs both tasks,
  it draws all four blocks and the result has two payments again: the count depends on the
  schedule as well. The generator is seeded once per process and not per trial, and a
  trial ignores its number, so the costs a trial draws depend on which process runs it and
  on what that process ran before. The flows that \<open>ex_solve\<close> returns are the cheapest
  ones (\<open>ex_solve_optimal_2x2\<close>), and with these costs every solver that returns a
  cheapest feasible flow makes each trial return the same settlement
  (\<open>optimal_solver_settlement_2x2\<close>, \<open>ex_seed_123_slopes\<close>).
\<close>

theorem C5_pool_size_changes_edge_count:
  "find_best_settlement (find_settlement_or ex_solve ex_randint) [-1, -3, 1, 3] 4 1
     ex_gens_seeded [(0, 0)] = Inr (Some [(2, [(0, 1)]), (3, [(1, 3)])]) \<and>
   settlement_cost [(2, [(0, 1)]), (3, [(1, 3)])] = 2 \<and>
   find_best_settlement (find_settlement_or ex_solve ex_randint) [-1, -3, 1, 3] 4 2
     ex_gens_seeded [(0, 0), (1, 1)] = Inr (Some [(2, [(1, 1)]), (3, [(0, 1), (1, 2)])]) \<and>
   find_best_settlement (find_settlement_or ex_solve ex_randint) [-1, -3, 1, 3] 4 2
     ex_gens_seeded [(1, 1), (0, 0)] = Inr (Some [(2, [(1, 1)]), (3, [(0, 1), (1, 2)])]) \<and>
   settlement_cost [(2, [(1, 1)]), (3, [(0, 1), (1, 2)])] = 3 \<and>
   find_best_settlement (find_settlement_or ex_solve ex_randint) [-1, -3, 1, 3] 4 2
     ex_gens_seeded [(0, 0), (1, 0)] = Inr (Some [(2, [(0, 1)]), (3, [(1, 3)])])"
  by code_simp

text \<open>
  C6. Every payment of a settlement that either backend returns has an amount above
  zero: the extraction loops skip every arc and every dictionary item whose flow is zero
  or negative, so no payment of amount zero is recorded.
\<close>

theorem C6_payments_positive:
  assumes "fst (find_settlement_or solve randint cashouts trial g) = Inr s \<or>
           fst (find_settlement_nx max_flow_min_cost randint cashouts trial g) = Inr s"
    and "(k, p, a) \<in> set (entries s)"
  shows "a > 0"
proof -
  from assms(1) show ?thesis
  proof
    assume "fst (find_settlement_or solve randint cashouts trial g) = Inr s"
    from or_positive [OF this assms(2)] show ?thesis .
  next
    assume "fst (find_settlement_nx max_flow_min_cost randint cashouts trial g) = Inr s"
    from nx_positive [OF this assms(2)] show ?thesis .
  qed
qed

theorem C6_payments_positive_witness:
  "fst (find_settlement_or ex_solve ex_randint [-1, -3, 1, 3] 0 (ex_gens 0))
     = Inr [(2, [(1, 1)]), (3, [(0, 1), (1, 2)])] \<and>
   (3, 1, 2) \<in> set (entries [(2, [(1, 1)]), (3, [(0, 1), (1, 2)])]) \<and> (0::int) < 2"
proof -
  have r: "fst (find_settlement_or ex_solve ex_randint [-1, -3, 1, 3] 0 (ex_gens 0))
     = Inr [(2, [(1, 1)]), (3, [(0, 1), (1, 2)])]"
    by (simp add: find_settlement_or_def ex_solve_def ex_randint_def ex_gens_def
        edge_weight_def Let_def)
  have m: "(3, 1, 2) \<in> set (entries [(2, [(1, 1)]), (3, [(0, 1), (1, 2)])])"
    by (simp add: entries_def)
  from C6_payments_positive [OF disjI1 [OF r] m] r m show ?thesis by simp
qed

text \<open>
  C7. The builders create a payment edge only between a player with a positive cashout
  and a player with a negative one, so never between two payers, two payees, or a player
  and itself, and never at a player whose cashout is zero; the capacity of the edge is the
  smaller of the two absolute cashouts. The other edges of the networkx graph join the
  source to a payer and a payee to the sink. Hence every payment of a settlement that a
  backend returns goes from a payer to a payee. For networkx the payees of a payment are
  the keys of the flow dictionary, which are asked to be the successors of the payer in
  the graph.
\<close>

theorem C7_edges_join_payer_and_payee:
  assumes "or_arcs randint (enumerate 0 cashouts) (enumerate 0 cashouts) g = (arcs, g1)"
    and "nx_graph randint cashouts g = (graph, g2)"
    and "nx_sound max_flow_min_cost graph (length cashouts) (length cashouts + 1)"
  shows "(\<forall>a\<in>set arcs. tail a < length cashouts \<and> head a < length cashouts \<and>
            cashouts ! tail a > 0 \<and> cashouts ! head a < 0 \<and> tail a \<noteq> head a \<and>
            capacity a = min (cashouts ! tail a) (- (cashouts ! head a))) \<and>
         (\<forall>e\<in>set graph.
            (e_from e = length cashouts \<and> e_to e < length cashouts \<and> cashouts ! e_to e < 0) \<or>
            (e_to e = length cashouts + 1 \<and> e_from e < length cashouts \<and>
               cashouts ! e_from e > 0) \<or>
            (e_from e < length cashouts \<and> e_to e < length cashouts \<and>
               cashouts ! e_from e < 0 \<and> cashouts ! e_to e > 0 \<and> e_from e \<noteq> e_to e \<and>
               e_capacity e = min (- (cashouts ! e_from e)) (cashouts ! e_to e))) \<and>
         (\<forall>s k p a.
            (fst (find_settlement_or solve randint cashouts trial g) = Inr s \<or>
             fst (find_settlement_nx max_flow_min_cost randint cashouts trial g) = Inr s) \<and>
            (k, p, a) \<in> set (entries s) \<longrightarrow>
            k < length cashouts \<and> p < length cashouts \<and> cashouts ! k > 0 \<and> cashouts ! p < 0 \<and>
            k \<noteq> p)"
proof -
  have A: "tail a < length cashouts \<and> head a < length cashouts \<and>
            cashouts ! tail a > 0 \<and> cashouts ! head a < 0 \<and> tail a \<noteq> head a \<and>
            capacity a = min (cashouts ! tail a) (- (cashouts ! head a))"
    if "a \<in> set arcs" for a
    using or_arcs_members [OF assms(1) that] by auto
  from assms(2) obtain es
    where es: "nx_edges randint (enumerate 0 cashouts) (enumerate 0 cashouts) g = (es, g2)"
      and graph: "graph = nx_terminal_edges (length cashouts) (length cashouts + 1)
                            (enumerate 0 cashouts) @ es"
    by (auto simp: nx_graph_def split: prod.splits)
  have B: "(e_from e = length cashouts \<and> e_to e < length cashouts \<and> cashouts ! e_to e < 0) \<or>
            (e_to e = length cashouts + 1 \<and> e_from e < length cashouts \<and>
               cashouts ! e_from e > 0) \<or>
            (e_from e < length cashouts \<and> e_to e < length cashouts \<and>
               cashouts ! e_from e < 0 \<and> cashouts ! e_to e > 0 \<and> e_from e \<noteq> e_to e \<and>
               e_capacity e = min (- (cashouts ! e_from e)) (cashouts ! e_to e))"
    if e: "e \<in> set graph" for e
  proof -
    from e graph
    have "e \<in> set (nx_terminal_edges (length cashouts) (length cashouts + 1)
                     (enumerate 0 cashouts)) \<or> e \<in> set es"
      by simp
    then show ?thesis
    proof
      assume "e \<in> set (nx_terminal_edges (length cashouts) (length cashouts + 1)
                         (enumerate 0 cashouts))"
      from nx_terminal_members [OF this] show ?thesis by auto
    next
      assume "e \<in> set es"
      from nx_edges_members [OF es this] show ?thesis by auto
    qed
  qed
  from assms(2,3) have sound: "nx_sound max_flow_min_cost (fst (nx_graph randint cashouts g))
      (length cashouts) (length cashouts + 1)" by simp
  have C: "k < length cashouts \<and> p < length cashouts \<and> cashouts ! k > 0 \<and> cashouts ! p < 0 \<and>
            k \<noteq> p"
    if h: "fst (find_settlement_or solve randint cashouts trial g) = Inr s \<or>
           fst (find_settlement_nx max_flow_min_cost randint cashouts trial g) = Inr s"
      and m: "(k, p, a) \<in> set (entries s)" for s k p a
  proof -
    from h have "k < length cashouts \<and> p < length cashouts \<and> cashouts ! k > 0 \<and> cashouts ! p < 0"
    proof
      assume "fst (find_settlement_or solve randint cashouts trial g) = Inr s"
      from or_finder_members [OF this m] show ?thesis .
    next
      assume "fst (find_settlement_nx max_flow_min_cost randint cashouts trial g) = Inr s"
      from nx_finder_members [OF this sound m] show ?thesis .
    qed
    then show ?thesis by auto
  qed
  from A B C show ?thesis by blast
qed

theorem C7_edges_join_payer_and_payee_witness:
  "or_arcs ex_randint (enumerate 0 [-50, 50]) (enumerate 0 [-50, 50]) (ex_gens 0)
     = ([\<lparr>tail = 1, head = 0, capacity = 50, unit_cost = 1\<rparr>], [0, 0, 1, 0, 1, 1, 0]) \<and>
   nx_graph ex_randint [-50, 50] (ex_gens 0)
     = ([\<lparr>e_from = 2, e_to = 0, e_capacity = 50, e_weight = None\<rparr>,
         \<lparr>e_from = 1, e_to = 3, e_capacity = 50, e_weight = None\<rparr>,
         \<lparr>e_from = 0, e_to = 1, e_capacity = 50, e_weight = Some 1\<rparr>], [0, 0, 1, 0, 1, 1, 0]) \<and>
   fst (find_settlement_nx ex_max_flow_min_cost ex_randint [-50, 50] 0 (ex_gens 0))
     = Inr [(1, [(0, 50)])] \<and>
   (1 < length [-50, 50 :: int] \<and> 0 < length [-50, 50 :: int] \<and>
    [-50, 50 :: int] ! 1 > 0 \<and> [-50, 50 :: int] ! 0 < 0 \<and> (1::nat) \<noteq> 0)"
proof -
  have a: "or_arcs ex_randint (enumerate 0 [-50, 50]) (enumerate 0 [-50, 50]) (ex_gens 0)
     = ([\<lparr>tail = 1, head = 0, capacity = 50, unit_cost = 1\<rparr>], [0, 0, 1, 0, 1, 1, 0])"
    by (simp add: ex_randint_def edge_weight_def ex_gens_def)
  have G: "nx_graph ex_randint [-50, 50] (ex_gens 0)
     = ([\<lparr>e_from = 2, e_to = 0, e_capacity = 50, e_weight = None\<rparr>,
         \<lparr>e_from = 1, e_to = 3, e_capacity = 50, e_weight = None\<rparr>,
         \<lparr>e_from = 0, e_to = 1, e_capacity = 50, e_weight = Some 1\<rparr>], [0, 0, 1, 0, 1, 1, 0])"
    by (simp add: nx_graph_def ex_randint_def edge_weight_def ex_gens_def)
  have "nx_sound ex_max_flow_min_cost (fst (nx_graph ex_randint [- 50, 50] (ex_gens 0))) 2 3"
    by (rule ex_max_flow_sound_1x1) simp_all
  then have s: "nx_sound ex_max_flow_min_cost
      [\<lparr>e_from = 2, e_to = 0, e_capacity = 50, e_weight = None\<rparr>,
       \<lparr>e_from = 1, e_to = 3, e_capacity = 50, e_weight = None\<rparr>,
       \<lparr>e_from = 0, e_to = 1, e_capacity = 50, e_weight = Some 1\<rparr>]
      (length [-50, 50 :: int]) (length [-50, 50 :: int] + 1)"
    unfolding G by (simp add: numeral_2_eq_2 numeral_3_eq_3)
  have r: "fst (find_settlement_nx ex_max_flow_min_cost ex_randint [-50, 50] 0 (ex_gens 0))
     = Inr [(1, [(0, 50)])]"
    by code_simp
  have m: "(1, 0, 50) \<in> set (entries [(1, [(0, 50)])])" by (simp add: entries_def)
  from C7_edges_join_payer_and_payee [OF a G s, of ex_solve 0] r m
  have "1 < length [-50, 50 :: int] \<and> 0 < length [-50, 50 :: int] \<and>
    [-50, 50 :: int] ! 1 > 0 \<and> [-50, 50 :: int] ! 0 < 0 \<and> (1::nat) \<noteq> 0"
    by blast
  with a G r show ?thesis by blast
qed

text \<open>
  C8. The claim says that a search of zero trials, or on a ledger without players, returns
  an empty settlement and raises nothing. With \<open>num_trials = 0\<close> the chunk size is
  \<open>ceil(0 / cpu_count) = 0\<close>, the pool refuses it with a \<open>ValueError\<close>, and no
  settlement is returned, whether the ledger has players or not. On the ledger without
  players and with one trial, the networkx backend builds a graph without nodes,
  \<open>max_flow_min_cost\<close> raises \<open>NetworkXError\<close> for the missing source, and the search
  raises it (for every solver that refuses a missing node: \<open>nx_search_raises\<close>).
\<close>

theorem C8_counterexample:
  "find_best_settlement (find_settlement_or ex_solve ex_randint) [-50, 50] 0 1 ex_gens []
     = Inl ValueError \<and>
   find_best_settlement (find_settlement_or ex_solve ex_randint) [] 0 1 ex_gens []
     = Inl ValueError \<and>
   find_best_settlement (find_settlement_nx ex_max_flow_min_cost ex_randint) [] 1 1 ex_gens
     [(0, 0)] = Inl NetworkXError"
  by code_simp

text \<open>
  C8, amended. For a ledger without players and at least one trial, the search with the
  OR-tools backend returns the empty settlement and raises nothing: every trial returns
  the empty settlement, whose cost 0 is below the starting cost 1. The solver is asked
  what it is asked elsewhere, to report \<open>OPTIMAL\<close> whenever a feasible flow exists; the
  network without nodes has one (\<open>or_feasible_empty\<close>).
\<close>

theorem C8_no_players_empty_settlement:
  assumes "1 \<le> num_trials" and "0 < cpu_count"
    and "valid_schedule (length (pool_tasks num_trials cpu_count)) cpu_count sched"
    and "or_complete solve [] []"
  shows "find_best_settlement (find_settlement_or solve randint) [] num_trials cpu_count gens
           sched = Inr (Some [])"
proof -
  let ?f = "find_settlement_or solve randint []"
  from assms(4) or_feasible_empty have "fst (solve [] []) = OPTIMAL"
    by (auto simp: or_complete_def)
  then have trial: "fst (?f i g) = Inr []" for i g
    by (rule or_finder_empty)
  let ?items = "pool_run ?f (pool_tasks num_trials cpu_count) gens sched"
  have ne: "?items \<noteq> []"
    by (rule pool_run_nonempty [OF assms(3) pool_tasks_nonempty(1,2) [OF assms(1,2)]])
  have all: "x = Inr []" if x: "x \<in> set ?items" for x
  proof -
    from pool_run_all_right [OF _ x] trial obtain r where r: "x = Inr r" by blast
    with x have "Inr r \<in> set ?items" by simp
    from pool_run_results [OF this] trial r show ?thesis by auto
  qed
  from imap_unordered_pool_tasks [OF ceil_div_pos [OF assms(1,2)], of ?f gens sched] assms(2)
  have "find_best_settlement (find_settlement_or solve randint) [] num_trials cpu_count gens sched
      = best_loop ?items (1, None)"
    by (simp add: find_best_settlement_def)
  with best_loop_all_empty [OF ne all] show ?thesis by simp
qed

theorem C8_no_players_empty_settlement_witness:
  "valid_schedule (length (pool_tasks 3 2)) 2 [(1, 0), (0, 1)] \<and>
   fst (ex_solve [] []) = OPTIMAL \<and>
   find_best_settlement (find_settlement_or ex_solve ex_randint) [] 3 2 ex_gens [(1, 0), (0, 1)]
     = Inr (Some [])"
proof -
  have n: "1 \<le> (3::int)" and c: "0 < (2::nat)" by simp_all
  have v: "valid_schedule (length (pool_tasks 3 2)) 2 [(1, 0), (0, 1)]"
    by code_simp
  have o: "fst (ex_solve [] []) = OPTIMAL" by (simp add: ex_solve_def)
  then have oc: "or_complete ex_solve [] []" by (simp add: or_complete_def)
  from C8_no_players_empty_settlement [OF n c v oc] v o show ?thesis by blast
qed



text \<open>
  C10. The claim says that on every balanced ledger both backends return a settlement.
  The ledger \<open>[0, 0]\<close> is balanced and has neither a payer nor a payee. The OR-tools
  backend builds no arc and returns the empty settlement. The networkx backend adds no
  edge, so its graph has no node; \<open>max_flow_min_cost\<close> raises \<open>NetworkXError\<close> because
  the source is not in the graph, and the trial and the search end in that exception. The
  same holds for every balanced ledger of zeros, the empty one among them, and for every
  solver that refuses a missing source or sink (\<open>nx_finder_raises\<close>, \<open>nx_search_raises\<close>,
  \<open>or_finder_zero_ledger\<close>). On every other balanced ledger the two backends do agree:
  both return a settlement that meets the settlement contract (\<open>backends_interchangeable\<close>).
\<close>

theorem C10_zero_ledger_networkx_raises:
  "sum_list [0, 0 :: int] = 0 \<and>
   fst (find_settlement_or ex_solve ex_randint [0, 0] 0 (ex_gens 0)) = Inr [] \<and>
   fst (find_settlement_nx ex_max_flow_min_cost ex_randint [0, 0] 0 (ex_gens 0))
     = Inl NetworkXError \<and>
   find_best_settlement (find_settlement_or ex_solve ex_randint) [0, 0] 1 1 ex_gens [(0, 0)]
     = Inr (Some []) \<and>
   find_best_settlement (find_settlement_nx ex_max_flow_min_cost ex_randint) [0, 0] 1 1 ex_gens
     [(0, 0)] = Inl NetworkXError"
  by code_simp

end
